theory Spec2Isabelle
  imports Main
begin

section \<open>Strings and numbers of the host language\<close>

text \<open>
  A string is a list of code units; only code units below 256 are represented.
  Numbers occur only as results of \<open>parseInt\<close>; they are integers here, with \<open>None\<close>
  for NaN. The host language computes with doubles, which are these integers up to
  \<open>2^53\<close> in magnitude and round beyond; a statement about the value or the name of a
  number is made for that range only (\<open>exact_segment\<close> below).
\<close>

definition is_ws :: "char \<Rightarrow> bool" where
  "is_ws c = ((of_char c :: nat) \<in> {9, 10, 11, 12, 13, 32, 160})"

definition trim :: "string \<Rightarrow> string" where
  "trim s = rev (dropWhile is_ws (rev (dropWhile is_ws s)))"

definition digit_val :: "char \<Rightarrow> nat option" where
  "digit_val c =
     (let n = (of_char c :: nat) in
      if 48 \<le> n \<and> n \<le> 57 then Some (n - 48)
      else if 97 \<le> n \<and> n \<le> 102 then Some (n - 87)
      else if 65 \<le> n \<and> n \<le> 70 then Some (n - 55)
      else None)"

definition is_digit :: "nat \<Rightarrow> char \<Rightarrow> bool" where
  "is_digit radix c = (case digit_val c of None \<Rightarrow> False | Some d \<Rightarrow> d < radix)"

fun digits_value :: "nat \<Rightarrow> nat \<Rightarrow> string \<Rightarrow> nat" where
  "digits_value radix acc [] = acc"
| "digits_value radix acc (c # cs) =
     digits_value radix (acc * radix + (case digit_val c of None \<Rightarrow> 0 | Some d \<Rightarrow> d)) cs"

text \<open>\<open>parseInt(s)\<close> with no radix argument: leading white space is skipped, a sign
  is read, a \<open>0x\<close>/\<open>0X\<close> prefix selects radix 16, and the longest prefix of digits
  is converted; no digit at all gives NaN.\<close>

definition parseInt :: "string \<Rightarrow> int option" where
  "parseInt s =
     (let s1 = dropWhile is_ws s;
          neg = (s1 \<noteq> [] \<and> hd s1 = CHR ''-'');
          s2 = (if s1 \<noteq> [] \<and> (hd s1 = CHR ''-'' \<or> hd s1 = CHR ''+'') then tl s1 else s1);
          hex = (take 2 s2 = ''0x'' \<or> take 2 s2 = ''0X'');
          radix = (if hex then 16 else 10);
          s3 = (if hex then drop 2 s2 else s2);
          ds = takeWhile (is_digit radix) s3
      in if ds = [] then None
         else Some ((if neg then - 1 else 1) * int (digits_value radix 0 ds)))"

definition digit_char :: "nat \<Rightarrow> char" where
  "digit_char d = (''0123456789'' ! d)"

fun dec :: "nat \<Rightarrow> string" where
  "dec n = (if n < 10 then [digit_char n] else dec (n div 10) @ [digit_char (n mod 10)])"

declare dec.simps [simp del]

text \<open>The string of an integer-valued number (\<open>ToString\<close>).\<close>

definition num_to_string :: "int \<Rightarrow> string" where
  "num_to_string i = (if i < 0 then CHR ''-'' # dec (nat (- i)) else dec (nat i))"

definition isNumericKey :: "string \<Rightarrow> bool" where
  "isNumericKey key = (parseInt key \<noteq> None)"

text \<open>A property name is an array index when it is the canonical decimal string of
  a number below \<open>2^32 - 1\<close>.\<close>

definition array_index :: "string \<Rightarrow> nat option" where
  "array_index k =
     (if k \<noteq> [] \<and> list_all (is_digit 10) k \<and> (k = ''0'' \<or> hd k \<noteq> CHR ''0'')
         \<and> digits_value 10 0 k < 4294967295
      then Some (digits_value 10 0 k) else None)"

definition is_sep :: "char \<Rightarrow> bool" where
  "is_sep c = (c = CHR ''.'' \<or> c = CHR ''['' \<or> c = CHR '']'')"

text \<open>\<open>s.split(/[.[\]]/)\<close>: the pieces between separator characters, empty pieces
  included; the empty string splits into one empty piece.\<close>

fun split_seps :: "string \<Rightarrow> string list" where
  "split_seps [] = [[]]"
| "split_seps (c # cs) =
     (if is_sep c then [] # split_seps cs
      else (case split_seps cs of [] \<Rightarrow> [[c]] | w # ws \<Rightarrow> (c # w) # ws))"

text \<open>\<open>s.split(/[.[\]]/).filter(Boolean)\<close>\<close>

definition split_parts :: "string \<Rightarrow> string list" where
  "split_parts s = filter (\<lambda>w. w \<noteq> []) (split_seps s)"

fun str_includes :: "string \<Rightarrow> string \<Rightarrow> bool" where
  "str_includes [] t = (t = [])"
| "str_includes (c # cs) t = (take (length t) (c # cs) = t \<or> str_includes cs t)"


section \<open>Values\<close>

text \<open>
  A value is \<open>undefined\<close>, \<open>null\<close>, a string, an object or an array. An object is
  its list of own enumerable properties in the host language's enumeration order
  (array-index names ascending, then the other names by insertion); a \<open>File\<close> is an
  object of kind \<open>FileObj\<close>, which has no own enumerable property of its own. An
  array is its list of slots (\<open>None\<close> is a hole) and its non-index properties.

  Properties are own data properties: \<open>get_prop\<close> reads them and \<open>set_prop\<close> stores
  them. The engine does otherwise for three kinds of names, which these definitions do
  not follow: \<open>__proto__\<close> (the prototype accessor), \<open>length\<close> of an array, and the
  accessors of a \<open>File\<close>; and a read finds inherited properties too, which are
  functions for every other name and so count as no container. Names inherited from
  \<open>Object.prototype\<close> are followed where they decide a result, in the group table
  of \<open>processFormData\<close>. The statements that depend on the difference assume trees
  and names free of it (\<open>plain_tree\<close> and \<open>engine_names\<close> below).
\<close>

datatype okind = Plain | FileObj nat

datatype jsval =
    Undef
  | Null
  | Str string
  | Obj okind "(string \<times> jsval) list"
  | Arr "jsval option list" "(string \<times> jsval) list"

definition lookup :: "(string \<times> jsval) list \<Rightarrow> string \<Rightarrow> jsval" where
  "lookup ps k = (case map_of ps k of None \<Rightarrow> Undef | Some v \<Rightarrow> v)"

fun insert_index :: "nat \<Rightarrow> string \<Rightarrow> 'a \<Rightarrow> (string \<times> 'a) list \<Rightarrow> (string \<times> 'a) list" where
  "insert_index n k v [] = [(k, v)]"
| "insert_index n k v ((k', v') # ps) =
     (case array_index k' of
        Some m \<Rightarrow> if m < n then (k', v') # insert_index n k v ps else (k, v) # (k', v') # ps
      | None \<Rightarrow> (k, v) # (k', v') # ps)"

text \<open>\<open>o[k] = v\<close> on the own properties of an ordinary object: an existing name keeps
  its place; a new array-index name goes among the index names in ascending order; any
  other new name goes last.\<close>

definition put :: "string \<Rightarrow> 'a \<Rightarrow> (string \<times> 'a) list \<Rightarrow> (string \<times> 'a) list" where
  "put k v ps =
     (if map_of ps k \<noteq> None then map (\<lambda>(k', v'). if k' = k then (k', v) else (k', v')) ps
      else (case array_index k of Some n \<Rightarrow> insert_index n k v ps | None \<Rightarrow> ps @ [(k, v)]))"

definition arr_get :: "jsval option list \<Rightarrow> nat \<Rightarrow> jsval" where
  "arr_get xs i = (if i < length xs then (case xs ! i of None \<Rightarrow> Undef | Some v \<Rightarrow> v) else Undef)"

definition arr_set :: "jsval option list \<Rightarrow> nat \<Rightarrow> jsval \<Rightarrow> jsval option list" where
  "arr_set xs i v =
     (if i < length xs then xs[i := Some v] else xs @ replicate (i - length xs) None @ [Some v])"

text \<open>\<open>c[k]\<close> and \<open>c[k] = v\<close> for a container \<open>c\<close>.\<close>

fun get_prop :: "jsval \<Rightarrow> string \<Rightarrow> jsval" where
  "get_prop (Obj t ps) k = lookup ps k"
| "get_prop (Arr xs ps) k = (case array_index k of Some i \<Rightarrow> arr_get xs i | None \<Rightarrow> lookup ps k)"
| "get_prop _ k = Undef"

fun set_prop :: "jsval \<Rightarrow> string \<Rightarrow> jsval \<Rightarrow> jsval" where
  "set_prop (Obj t ps) k v = Obj t (put k v ps)"
| "set_prop (Arr xs ps) k v =
     (case array_index k of Some i \<Rightarrow> Arr (arr_set xs i v) ps | None \<Rightarrow> Arr xs (put k v ps))"
| "set_prop c k v = c"

fun falsy :: "jsval \<Rightarrow> bool" where
  "falsy Undef = True"
| "falsy Null = True"
| "falsy (Str s) = (s = [])"
| "falsy _ = False"

text \<open>\<open>typeof v === 'object'\<close>\<close>

fun typeof_object :: "jsval \<Rightarrow> bool" where
  "typeof_object Null = True"
| "typeof_object (Obj t ps) = True"
| "typeof_object (Arr xs ps) = True"
| "typeof_object _ = False"

fun isArray :: "jsval \<Rightarrow> bool" where
  "isArray (Arr xs ps) = True"
| "isArray _ = False"

fun is_string :: "jsval \<Rightarrow> bool" where
  "is_string (Str s) = True"
| "is_string _ = False"

text \<open>The elements of an array that are present, in index order (what \<open>filter\<close>,
  \<open>map\<close> and \<open>forEach\<close> visit), and the dense array of a list of values.\<close>

definition present :: "jsval option list \<Rightarrow> jsval list" where
  "present xs = concat (map (\<lambda>x. case x of None \<Rightarrow> [] | Some v \<Rightarrow> [v]) xs)"

definition dense :: "jsval list \<Rightarrow> jsval" where
  "dense vs = Arr (map Some vs) []"


section \<open>StructureBuilder: \<open>formUtils\<close>\<close>

definition isEmptyValue :: "jsval \<Rightarrow> bool" where
  "isEmptyValue v = (case v of Str s \<Rightarrow> trim s = [] | _ \<Rightarrow> False)"

text \<open>\<open>keys.sort((a, b) => parseInt(a) - parseInt(b))\<close>: a stable sort; a comparison
  that yields NaN counts as 0. When every key is numeric the comparison is consistent
  and the result does not depend on the sorting algorithm of the engine.\<close>

definition cmp_keys :: "string \<Rightarrow> string \<Rightarrow> int" where
  "cmp_keys a b =
     (case parseInt a of None \<Rightarrow> 0
      | Some x \<Rightarrow> (case parseInt b of None \<Rightarrow> 0 | Some y \<Rightarrow> x - y))"

fun insert_key :: "string \<Rightarrow> string list \<Rightarrow> string list" where
  "insert_key a [] = [a]"
| "insert_key a (b # bs) = (if cmp_keys a b < 0 then a # b # bs else b # insert_key a bs)"

definition sort_keys :: "string list \<Rightarrow> string list" where
  "sort_keys ks = fold insert_key ks []"

text \<open>The property name of a number used as a subscript.\<close>

definition num_key :: "int option \<Rightarrow> string" where
  "num_key n = (case n of None \<Rightarrow> ''NaN'' | Some i \<Rightarrow> num_to_string i)"

fun array_filter :: "(jsval \<Rightarrow> bool) \<Rightarrow> jsval \<Rightarrow> jsval" where
  "array_filter P (Arr xs ps) = dense (filter P (present xs))"
| "array_filter P v = v"

text \<open>\<open>convertToArray\<close> and \<open>normalizeStructure\<close> call each other in the source. Here
  the values are normalized first, and \<open>convertToArray_of\<close> is the body of
  \<open>convertToArray\<close> on the normalized properties: \<open>array[parseInt(key)] = ...\<close> for
  the sorted keys, then \<open>array.filter(val => val !== undefined)\<close>.\<close>

definition convertToArray_of :: "(string \<times> jsval) list \<Rightarrow> jsval" where
  "convertToArray_of nps =
     array_filter (\<lambda>val. val \<noteq> Undef)
       (fold (\<lambda>key array. set_prop array (num_key (parseInt key)) (lookup nps key))
          (sort_keys (map fst nps)) (Arr [] []))"

fun normalizeStructure :: "jsval \<Rightarrow> jsval" where
  "normalizeStructure Undef = Undef"
| "normalizeStructure Null = Null"
| "normalizeStructure (Str s) = Str s"
| "normalizeStructure (Arr xs ps) =
     array_filter (\<lambda>val. \<not> falsy val) (Arr (map (map_option normalizeStructure) xs) [])"
| "normalizeStructure (Obj t ps) =
     (let keys = map fst ps;
          allNumericKeys = (keys \<noteq> [] \<and> list_all isNumericKey keys);
          nps = map (\<lambda>(key, v). (key, normalizeStructure v)) ps
      in if allNumericKeys then convertToArray_of nps
         else Obj Plain
                (fold (\<lambda>(key, normalized) resultObj.
                         if normalized \<noteq> Undef then put key normalized resultObj else resultObj)
                   nps []))"

text \<open>\<open>convertToArray\<close> is called on objects that are not arrays.\<close>

fun convertToArray :: "jsval \<Rightarrow> jsval" where
  "convertToArray (Obj t ps) =
     convertToArray_of (map (\<lambda>(key, v). (key, normalizeStructure v)) ps)"
| "convertToArray v = dense []"

text \<open>The loop of \<open>setNestedValue\<close> and its last assignment, on the container
  \<open>current\<close>; the result is \<open>current\<close> after the mutation.\<close>

fun set_path :: "jsval \<Rightarrow> string list \<Rightarrow> jsval \<Rightarrow> jsval" where
  "set_path current [] v = current"
| "set_path current [key] v = set_prop current key v"
| "set_path current (key # nextKey # rest) v =
     (let isNextKeyNumeric = isNumericKey nextKey;
          child = get_prop current key;
          child' =
            (if falsy child \<or> \<not> typeof_object child
             then (if isNextKeyNumeric then Arr [] [] else Obj Plain [])
             else if isNextKeyNumeric \<and> \<not> isArray child then convertToArray child
             else child)
      in set_prop current key (set_path child' (nextKey # rest) v))"

definition setNestedValue :: "jsval \<Rightarrow> string list \<Rightarrow> jsval \<Rightarrow> jsval" where
  "setNestedValue obj p v = (if p = [] \<or> isEmptyValue v then obj else set_path obj p v)"

record FieldGroup =
  path :: "string list"
  fvalue :: jsval

text \<open>The filter of \<open>processFieldGroups\<close> on the elements of an array group.\<close>

fun keep_item :: "jsval \<Rightarrow> bool" where
  "keep_item (Obj t ps) =
     list_ex (\<lambda>val. val \<noteq> Null \<and>
                ((case val of Str s \<Rightarrow> trim s \<noteq> [] | _ \<Rightarrow> False) \<or> \<not> is_string val))
       (map snd ps)"
| "keep_item item = (item \<noteq> Undef)"

text \<open>One round of the loop of \<open>processFieldGroups\<close>: the value of one group.\<close>

definition process_group :: "FieldGroup list \<Rightarrow> jsval" where
  "process_group fs =
     (let isArrayStructure = list_all (\<lambda>f. path f \<noteq> [] \<and> isNumericKey (hd (path f))) fs;
          tempObj = fold (\<lambda>f obj. setNestedValue obj (path f) (fvalue f)) fs (Obj Plain []);
          normalized = normalizeStructure tempObj
      in if isArrayStructure \<and> isArray normalized then array_filter keep_item normalized
         else normalized)"

definition processFieldGroups :: "(string \<times> FieldGroup list) list \<Rightarrow> (string \<times> jsval) list" where
  "processFieldGroups fieldGroups =
     fold (\<lambda>(groupName, fs) result. put groupName (process_group fs) result)
       fieldGroups []"


datatype error = InvalidPath | InvalidTarget | TypeError | RangeError

text \<open>The names every ordinary object inherits from \<open>Object.prototype\<close>; the value
  found under each of them is truthy and has no \<open>push\<close> method.\<close>

definition object_prototype_names :: "string list" where
  "object_prototype_names =
     [''constructor'', ''__defineGetter__'', ''__defineSetter__'', ''hasOwnProperty'',
      ''__lookupGetter__'', ''__lookupSetter__'', ''isPrototypeOf'', ''propertyIsEnumerable'',
      ''toString'', ''valueOf'', ''__proto__'', ''toLocaleString'']"

definition is_simple_key :: "string \<Rightarrow> bool" where
  "is_simple_key key = (\<not> str_includes key ''.'' \<and> \<not> str_includes key ''['')"

text \<open>\<open>parts[0]\<close> as a property name: the first part, or \<open>undefined\<close> when there is
  none.\<close>

definition base_name :: "string list \<Rightarrow> string" where
  "base_name parts = (case parts of [] \<Rightarrow> ''undefined'' | p # _ \<Rightarrow> p)"

text \<open>One round of the grouping loop. \<open>fieldGroups[baseName]\<close> finds an own group, or
  else an inherited value, on which \<open>push\<close> is not a function.\<close>

definition add_entry ::
  "string \<times> jsval \<Rightarrow> (string \<times> FieldGroup list) list \<Rightarrow> error + (string \<times> FieldGroup list) list" where
  "add_entry e fieldGroups =
     (let parts = split_parts (fst e);
          baseName = base_name parts;
          f = \<lparr>path = drop 1 parts, fvalue = snd e\<rparr>
      in case map_of fieldGroups baseName of
           Some fs \<Rightarrow> Inr (put baseName (fs @ [f]) fieldGroups)
         | None \<Rightarrow>
             if baseName \<in> set object_prototype_names then Inl TypeError
             else Inr (put baseName ([] @ [f]) (put baseName [] fieldGroups)))"

fun group_entries ::
  "(string \<times> jsval) list \<Rightarrow> (string \<times> FieldGroup list) list \<Rightarrow> error + (string \<times> FieldGroup list) list" where
  "group_entries [] fieldGroups = Inr fieldGroups"
| "group_entries (e # es) fieldGroups =
     (case add_entry e fieldGroups of
        Inl err \<Rightarrow> Inl err
      | Inr fieldGroups' \<Rightarrow> group_entries es fieldGroups')"

text \<open>\<open>processFormData\<close> on the entries of its argument; the result is the list of
  properties of the object it returns.\<close>

definition processFormData :: "(string \<times> jsval) list \<Rightarrow> error + (string \<times> jsval) list" where
  "processFormData entries =
     (let result = fold (\<lambda>(key, v) r. if is_simple_key key then put key v r else r) entries [];
          nestedEntries = filter (\<lambda>(key, v). str_includes key ''.'' \<or> str_includes key ''['') entries
      in case group_entries nestedEntries [] of
           Inl err \<Rightarrow> Inl err
         | Inr fieldGroups \<Rightarrow>
             Inr (fold (\<lambda>(key, v) r. put key v r) (result @ processFieldGroups fieldGroups) []))"


section \<open>PathAccessor: \<open>data\<close>\<close>

datatype PathSegment = Name string | Index int

definition parsePath :: "string \<Rightarrow> error + PathSegment list" where
  "parsePath p =
     (if p = [] then Inl InvalidPath
      else if str_includes p ''..'' then Inl InvalidPath
      else Inr (map (\<lambda>segment. case parseInt segment of None \<Rightarrow> Name segment | Some num \<Rightarrow> Index num)
                  (split_parts p)))"

text \<open>The property name of a segment used as a subscript, and
  \<open>typeof segment === 'number'\<close>.\<close>

fun seg_key :: "PathSegment \<Rightarrow> string" where
  "seg_key (Name s) = s"
| "seg_key (Index i) = num_to_string i"

fun is_number :: "PathSegment \<Rightarrow> bool" where
  "is_number (Index i) = True"
| "is_number (Name s) = False"

text \<open>\<open>current ?? defaultValue\<close>\<close>

definition nullish_or :: "jsval \<Rightarrow> jsval \<Rightarrow> jsval" where
  "nullish_or current d = (if current = Undef \<or> current = Null then d else current)"

fun get_walk :: "jsval \<Rightarrow> PathSegment list \<Rightarrow> jsval \<Rightarrow> jsval" where
  "get_walk current [] d = nullish_or current d"
| "get_walk current (segment # segments) d =
     (if current = Null \<or> \<not> typeof_object current then d
      else get_walk (get_prop current (seg_key segment)) segments d)"

definition getValue :: "jsval \<Rightarrow> string \<Rightarrow> jsval \<Rightarrow> error + jsval" where
  "getValue obj p defaultValue =
     (if falsy obj then Inl InvalidTarget
      else case parsePath p of
             Inl err \<Rightarrow> Inl err
           | Inr segments \<Rightarrow> Inr (get_walk obj segments defaultValue))"

text \<open>The loop of \<open>setValue\<close> and its last assignment, on the container \<open>current\<close>.
  With no segment at all the last segment is \<open>undefined\<close>.\<close>

fun set_walk :: "jsval \<Rightarrow> PathSegment list \<Rightarrow> jsval \<Rightarrow> jsval" where
  "set_walk current [] v = set_prop current ''undefined'' v"
| "set_walk current [lastSegment] v = set_prop current (seg_key lastSegment) v"
| "set_walk current (segment # nextSegment # rest) v =
     (let isNextNumeric = is_number nextSegment;
          child = get_prop current (seg_key segment);
          child' =
            (if falsy child \<or> \<not> typeof_object child
             then (if isNextNumeric then Arr [] [] else Obj Plain [])
             else child)
      in set_prop current (seg_key segment) (set_walk child' (nextSegment # rest) v))"

definition setValue :: "jsval \<Rightarrow> string \<Rightarrow> jsval \<Rightarrow> error + jsval" where
  "setValue obj p v =
     (if falsy obj then Inl InvalidTarget
      else case parsePath p of
             Inl err \<Rightarrow> Inl err
           | Inr segments \<Rightarrow> Inr (set_walk obj segments v))"

fun has_walk :: "jsval \<Rightarrow> PathSegment list \<Rightarrow> bool" where
  "has_walk current [] = (current \<noteq> Undef \<and> current \<noteq> Null)"
| "has_walk current (segment # segments) =
     (if current = Null \<or> \<not> typeof_object current then False
      else has_walk (get_prop current (seg_key segment)) segments)"

definition hasValue :: "jsval \<Rightarrow> string \<Rightarrow> error + bool" where
  "hasValue obj p =
     (if falsy obj then Inl InvalidTarget
      else case parsePath p of
             Inl err \<Rightarrow> Inl err
           | Inr segments \<Rightarrow> Inr (has_walk obj segments))"

fun delete_prop :: "jsval \<Rightarrow> string \<Rightarrow> jsval" where
  "delete_prop (Obj t ps) k = Obj t (filter (\<lambda>(k', v). k' \<noteq> k) ps)"
| "delete_prop (Arr xs ps) k =
     (case array_index k of
        Some i \<Rightarrow> Arr (if i < length xs then xs[i := None] else xs) ps
      | None \<Rightarrow> Arr xs (filter (\<lambda>(k', v). k' \<noteq> k) ps))"
| "delete_prop c k = c"

text \<open>\<open>Object.keys\<close> of an array and \<open>array.length = n\<close>, which raises a
  \<open>RangeError\<close> unless \<open>n\<close> is a valid length.\<close>

definition array_keys :: "jsval option list \<Rightarrow> (string \<times> jsval) list \<Rightarrow> string list" where
  "array_keys xs ps = map dec (filter (\<lambda>i. xs ! i \<noteq> None) [0 ..< length xs]) @ map fst ps"

definition set_length :: "jsval option list \<Rightarrow> int \<Rightarrow> error + jsval option list" where
  "set_length xs n =
     (if n < 0 \<or> 4294967295 < n then Inl RangeError
      else Inr (take (nat n) xs @ replicate (nat n - length xs) None))"

text \<open>The end of \<open>deleteValue\<close>, on the parent of the target.\<close>

definition delete_last :: "jsval \<Rightarrow> PathSegment option \<Rightarrow> error + jsval" where
  "delete_last current lastSegment =
     (let current' = delete_prop current (case lastSegment of None \<Rightarrow> ''undefined'' | Some sg \<Rightarrow> seg_key sg)
      in case (current', lastSegment) of
           (Arr xs ps, Some (Index n)) \<Rightarrow>
             (let hasOtherProperties =
                    list_ex (\<lambda>key. case parseInt key of None \<Rightarrow> False | Some numKey \<Rightarrow> numKey > n)
                      (array_keys xs ps)
              in if \<not> hasOtherProperties
                 then (case set_length xs n of Inl err \<Rightarrow> Inl err | Inr xs' \<Rightarrow> Inr (Arr xs' ps))
                 else Inr current')
         | _ \<Rightarrow> Inr current')"

text \<open>The walk of \<open>deleteValue\<close>; \<open>None\<close> is the early return that leaves everything as
  it was.\<close>

fun delete_walk :: "jsval \<Rightarrow> PathSegment list \<Rightarrow> error + jsval option" where
  "delete_walk current [] = map_sum id Some (delete_last current None)"
| "delete_walk current [lastSegment] = map_sum id Some (delete_last current (Some lastSegment))"
| "delete_walk current (segment # rest) =
     (let child = get_prop current (seg_key segment)
      in if falsy child \<or> \<not> typeof_object child then Inr None
         else (case delete_walk child rest of
                 Inl err \<Rightarrow> Inl err
               | Inr None \<Rightarrow> Inr None
               | Inr (Some child') \<Rightarrow> Inr (Some (set_prop current (seg_key segment) child'))))"

definition deleteValue :: "jsval \<Rightarrow> string \<Rightarrow> error + jsval" where
  "deleteValue obj p =
     (if falsy obj then Inl InvalidTarget
      else case parsePath p of
             Inl err \<Rightarrow> Inl err
           | Inr segments \<Rightarrow>
               (case delete_walk obj segments of
                  Inl err \<Rightarrow> Inl err
                | Inr None \<Rightarrow> Inr obj
                | Inr (Some obj') \<Rightarrow> Inr obj'))"

section \<open>Predicates of the statements\<close>

text \<open>A tree in which no property value and no array element is \<open>undefined\<close>,
  \<open>null\<close> or the empty string.\<close>

fun nonempty_leaves :: "jsval \<Rightarrow> bool" where
  "nonempty_leaves Undef = False"
| "nonempty_leaves Null = False"
| "nonempty_leaves (Str s) = (s \<noteq> [])"
| "nonempty_leaves (Obj t ps) = list_all (\<lambda>(k, v). nonempty_leaves v) ps"
| "nonempty_leaves (Arr xs ps) =
     list_all (\<lambda>x. case x of None \<Rightarrow> True | Some v \<Rightarrow> nonempty_leaves v) xs"

text \<open>Names in the enumeration order of own properties: no name twice, the array-index
  names first and ascending, the other names after them.\<close>

fun ordered_keys :: "string list \<Rightarrow> bool" where
  "ordered_keys [] = True"
| "ordered_keys (k # ks) =
     (k \<notin> set ks \<and> ordered_keys ks \<and>
      (case array_index k of
         Some n \<Rightarrow> list_all (\<lambda>k'. case array_index k' of Some m \<Rightarrow> n < m | None \<Rightarrow> True) ks
       | None \<Rightarrow> list_all (\<lambda>k'. array_index k' = None) ks))"

text \<open>The names whose behaviour in an object or an array is the engine's, and a tree of
  ordinary objects and arrays: no \<open>File\<close> in it, and none of these names among its
  properties.\<close>

definition engine_names :: "string list" where
  "engine_names = [''__proto__'', ''length'']"

fun plain_tree :: "jsval \<Rightarrow> bool" where
  "plain_tree (Obj t ps) = (t = Plain \<and> list_all (\<lambda>(k, v). k \<noteq> ''__proto__'' \<and> plain_tree v) ps)"
| "plain_tree (Arr xs ps) =
     (list_all (\<lambda>x. case x of None \<Rightarrow> True | Some v \<Rightarrow> plain_tree v) xs \<and>
      list_all (\<lambda>(k, v). k \<notin> set engine_names \<and> plain_tree v) ps)"
| "plain_tree v = True"

text \<open>A segment whose number a double holds exactly.\<close>

fun exact_segment :: "PathSegment \<Rightarrow> bool" where
  "exact_segment (Name s) = True"
| "exact_segment (Index i) = (- 9007199254740992 \<le> i \<and> i \<le> 9007199254740992)"

section \<open>Evaluation on concrete inputs\<close>

lemmas builder_eval =
  processFormData_def is_simple_key_def split_parts_def is_sep_def base_name_def add_entry_def
  put_def array_index_def is_digit_def digit_val_def object_prototype_names_def
  processFieldGroups_def process_group_def setNestedValue_def isEmptyValue_def trim_def
  is_ws_def isNumericKey_def parseInt_def convertToArray_of_def sort_keys_def cmp_keys_def
  num_key_def num_to_string_def dec.simps digit_char_def dense_def present_def lookup_def
  arr_set_def arr_get_def Let_def

lemmas accessor_eval =
  getValue_def setValue_def hasValue_def deleteValue_def parsePath_def delete_last_def
  set_length_def array_keys_def nullish_or_def

section \<open>Facts about strings and numbers\<close>

lemma digit_val_digit_char: "d < 10 \<Longrightarrow> digit_val (digit_char d) = Some d"
proof -
  assume "d < 10"
  then have "d \<in> {0, 1, 2, 3, 4, 5, 6, 7, 8, 9}" by auto
  then show ?thesis by (auto simp: digit_val_def digit_char_def)
qed

lemma is_digit_digit_char: "d < 10 \<Longrightarrow> is_digit 10 (digit_char d)"
  by (simp add: is_digit_def digit_val_digit_char)

lemma digit_char_zero: "d < 10 \<Longrightarrow> (digit_char d = CHR ''0'') = (d = 0)"
proof -
  assume "d < 10"
  then have "d \<in> {0, 1, 2, 3, 4, 5, 6, 7, 8, 9}" by auto
  then show ?thesis by (auto simp: digit_char_def)
qed

lemma digits_value_snoc:
  "digits_value r acc (cs @ [c]) =
     digits_value r acc cs * r + (case digit_val c of None \<Rightarrow> 0 | Some d \<Rightarrow> d)"
  by (induction cs arbitrary: acc) auto

lemma dec_nonempty: "dec n \<noteq> []"
  by (subst dec.simps) simp

lemma dec_all_digits: "list_all (is_digit 10) (dec n)"
  by (induction n rule: dec.induct) (subst dec.simps, simp add: is_digit_digit_char)

lemma digits_value_dec: "digits_value 10 0 (dec n) = n"
proof (induction n rule: dec.induct)
  case (1 n)
  show ?case
  proof (cases "n < 10")
    case True
    then show ?thesis by (subst dec.simps) (simp add: digit_val_digit_char)
  next
    case False
    then have "digits_value 10 0 (dec (n div 10)) = n div 10" using 1 by simp
    with False show ?thesis
      by (subst dec.simps) (simp add: digits_value_snoc digit_val_digit_char)
  qed
qed

lemma hd_dec: "hd (dec n) = CHR ''0'' \<Longrightarrow> n = 0"
proof (induction n rule: dec.induct)
  case (1 n)
  show ?case
  proof (cases "n < 10")
    case True
    with 1(2) show ?thesis by (subst (asm) dec.simps) (simp add: digit_char_zero)
  next
    case False
    with 1(2) have "hd (dec (n div 10)) = CHR ''0''"
      by (subst (asm) dec.simps) (simp add: dec_nonempty)
    with 1(1) False have "n div 10 = 0" by simp
    with False show ?thesis by simp
  qed
qed

lemma dec_zero: "dec 0 = ''0''"
  by (subst dec.simps) (simp add: digit_char_def)

lemma array_index_dec: "array_index (dec n) = (if n < 4294967295 then Some n else None)"
  using hd_dec [of n] dec_zero
  by (auto simp: array_index_def dec_nonempty dec_all_digits digits_value_dec)

lemma is_digit_not_special:
  "is_digit 10 c \<Longrightarrow> \<not> is_ws c \<and> c \<noteq> CHR ''-'' \<and> c \<noteq> CHR ''+'' \<and> c \<noteq> CHR ''x'' \<and> c \<noteq> CHR ''X'' \<and> \<not> is_sep c"
  by (auto simp: is_digit_def digit_val_def is_ws_def is_sep_def Let_def split: if_splits)

lemma parseInt_digits:
  assumes "ds \<noteq> []" "list_all (is_digit 10) ds"
  shows "parseInt ds = Some (int (digits_value 10 0 ds))"
    and "parseInt (CHR ''-'' # ds) = Some (- int (digits_value 10 0 ds))"
proof -
  obtain c cs where ds: "ds = c # cs" using assms(1) by (cases ds) auto
  have c: "is_digit 10 c" using assms(2) ds by simp
  note sp = is_digit_not_special [OF c]
  have dw: "dropWhile is_ws ds = ds" using sp ds by simp
  have hd: "hd ds \<noteq> CHR ''-''" "hd ds \<noteq> CHR ''+''" using sp ds by simp_all
  have nohex: "take 2 ds \<noteq> ''0x''" "take 2 ds \<noteq> ''0X''"
    using assms(2) ds is_digit_not_special [of "hd cs"] by (cases cs; auto)+
  have tw: "takeWhile (is_digit 10) ds = ds"
    using assms(2) by (simp add: list_all_iff)
  show "parseInt ds = Some (int (digits_value 10 0 ds))"
    using assms(1) by (simp add: parseInt_def Let_def dw hd nohex tw)
  have ws: "dropWhile is_ws (CHR ''-'' # ds) = CHR ''-'' # ds" by (simp add: is_ws_def)
  show "parseInt (CHR ''-'' # ds) = Some (- int (digits_value 10 0 ds))"
    unfolding parseInt_def ws using assms(1) by (simp add: Let_def nohex tw)
qed

lemma parseInt_dec: "parseInt (dec n) = Some (int n)"
  using parseInt_digits(1) [OF dec_nonempty dec_all_digits] by (simp add: digits_value_dec)

lemma split_seps_word: "\<forall>c\<in>set w. \<not> is_sep c \<Longrightarrow> split_seps w = [w]"
  by (induction w) auto




lemma str_includes_subset: "str_includes s t \<Longrightarrow> set t \<subseteq> set s"
proof (induction s)
  case Nil
  then show ?case by simp
next
  case (Cons c cs)
  from Cons.prems have "take (length t) (c # cs) = t \<or> str_includes cs t" by simp
  then show ?case
  proof
    assume "take (length t) (c # cs) = t"
    then have "set t = set (take (length t) (c # cs))" by simp
    then show ?thesis using set_take_subset [of "length t" "c # cs"] by blast
  next
    assume "str_includes cs t"
    then show ?thesis using Cons.IH by auto
  qed
qed

lemma parsePath_segments:
  assumes "parsePath p = Inr segs"
  shows "segs = map (\<lambda>w. case parseInt w of None \<Rightarrow> Name w | Some n \<Rightarrow> Index n) (split_parts p)"
  using assms by (auto simp: parsePath_def split: if_splits)

section \<open>Facts about properties and containers\<close>


lemma map_of_update_in_place:
  "map_of (map (\<lambda>(k', v'). if k' = k then (k', v) else (k', v')) ps) x =
     (if x = k then map_option (\<lambda>_. v) (map_of ps k) else map_of ps x)"
  by (induction ps) auto

lemma map_of_insert_index:
  "map_of ps k = None \<Longrightarrow>
     map_of (insert_index n k v ps) x = (if x = k then Some v else map_of ps x)"
  by (induction ps) (auto split: option.splits if_splits)

lemma map_of_put: "map_of (put k v ps) x = (if x = k then Some v else map_of ps x)"
proof (cases "map_of ps k")
  case None
  then show ?thesis
    by (auto simp: put_def map_of_insert_index map_add_def split: option.splits)
next
  case (Some a)
  then show ?thesis by (simp add: put_def map_of_update_in_place)
qed

lemma lookup_put: "lookup (put k v ps) x = (if x = k then v else lookup ps x)"
  by (simp add: lookup_def map_of_put)


lemma container_cases:
  assumes "\<not> falsy c" "typeof_object c"
  obtains t ps where "c = Obj t ps" | xs ps where "c = Arr xs ps"
  using assms by (cases c) auto


lemma set_prop_container:
  assumes "\<not> falsy c" "typeof_object c"
  shows "\<not> falsy (set_prop c k v)" "typeof_object (set_prop c k v)"
    "isArray (set_prop c k v) = isArray c"
  using assms by (cases c rule: container_cases; auto split: option.splits)+



lemma fold_set_prop_Arr:
  "\<exists>ys qs. fold (\<lambda>key a. set_prop a (f key) (g key)) ks (Arr xs ps) = Arr ys qs"
  by (induction ks arbitrary: xs ps) (auto split: option.splits)

lemma convertToArray_of_dense: "\<exists>vs. convertToArray_of nps = dense vs"
proof -
  obtain ys qs where
    "fold (\<lambda>key a. set_prop a (num_key (parseInt key)) (lookup nps key)) (sort_keys (map fst nps)) (Arr [] [])
       = Arr ys qs"
    using fold_set_prop_Arr [of "\<lambda>key. num_key (parseInt key)" "lookup nps" "sort_keys (map fst nps)" "[]" "[]"]
    by blast
  then show ?thesis unfolding convertToArray_of_def by auto
qed

lemma convertToArray_dense: "\<exists>vs. convertToArray c = dense vs"
  by (cases c) (auto simp: convertToArray_of_dense)

lemma set_path_container:
  assumes "\<not> falsy c" "typeof_object c"
  shows "\<not> falsy (set_path c ks v) \<and> typeof_object (set_path c ks v) \<and>
         isArray (set_path c ks v) = isArray c"
  using assms
  by (induction c ks v rule: set_path.induct) (simp_all add: set_prop_container Let_def)

lemma keys_update_in_place:
  "map fst (map (\<lambda>(k', v'). if k' = k then (k', v) else (k', v')) ps) = map fst ps"
  by (induction ps) auto

lemma set_insert_index: "set (insert_index n k v ps) = insert (k, v) (set ps)"
  by (induction ps) (auto split: option.splits if_splits)

lemma distinct_insert_index:
  "distinct (map fst ps) \<Longrightarrow> k \<notin> fst ` set ps \<Longrightarrow> distinct (map fst (insert_index n k v ps))"
  by (induction ps) (auto simp: set_insert_index split: option.splits)

lemma map_of_None_iff: "(map_of ps k = None) = (k \<notin> fst ` set ps)"
  by (simp add: map_of_eq_None_iff)

lemma distinct_put: "distinct (map fst ps) \<Longrightarrow> distinct (map fst (put k v ps))"
proof (cases "map_of ps k")
  case None
  then have "k \<notin> fst ` set ps" by (simp add: map_of_None_iff)
  then show "distinct (map fst ps) \<Longrightarrow> ?thesis"
    using None by (auto simp: put_def distinct_insert_index split: option.splits)
next
  case (Some a)
  then have "put k v ps = map (\<lambda>(k', v'). if k' = k then (k', v) else (k', v')) ps"
    by (simp add: put_def)
  then have "map fst (put k v ps) = map fst ps"
    by (simp only: keys_update_in_place)
  then show "distinct (map fst ps) \<Longrightarrow> ?thesis" by simp
qed

lemma keys_put: "fst ` set (put k v ps) = insert k (fst ` set ps)"
proof -
  have "dom (map_of (put k v ps)) = insert k (dom (map_of ps))"
    by (auto simp: map_of_put dom_def)
  then show ?thesis by (simp add: dom_map_of_conv_image_fst)
qed

lemma map_of_fold_put:
  "map_of (fold (\<lambda>(k, v) r. put k (f v) r) xs acc) x =
     (case map_of (rev xs) x of Some v \<Rightarrow> Some (f v) | None \<Rightarrow> map_of acc x)"
proof (induction xs arbitrary: acc)
  case Nil
  then show ?case by simp
next
  case (Cons a xs)
  obtain k v where a: "a = (k, v)" by (cases a)
  show ?case
    by (simp add: a Cons.IH map_of_put map_add_def split: option.splits)
qed

lemma distinct_fold_put:
  "distinct (map fst acc) \<Longrightarrow> distinct (map fst (fold (\<lambda>(k, v) r. put k (f v) r) xs acc))"
  by (induction xs arbitrary: acc) (auto simp: distinct_put)

lemma map_of_rev_distinct: "distinct (map fst ps) \<Longrightarrow> map_of (rev ps) = map_of ps"
  by (rule map_of_inject_set [THEN iffD2]) (simp_all add: rev_map [symmetric])

section \<open>Facts about grouping\<close>

lemma add_entry_map_of:
  assumes "add_entry e fg = Inr fg1"
  shows "map_of fg1 g =
     (if base_name (split_parts (fst e)) = g
      then Some ((case map_of fg g of None \<Rightarrow> [] | Some fs \<Rightarrow> fs) @
                 [\<lparr>path = drop 1 (split_parts (fst e)), fvalue = snd e\<rparr>])
      else map_of fg g)"
  using assms
  by (auto simp: add_entry_def Let_def map_of_put split: option.splits if_splits)

lemma add_entry_distinct:
  assumes "add_entry e fg = Inr fg1" "distinct (map fst fg)"
  shows "distinct (map fst fg1)"
  using assms
  by (auto simp: add_entry_def Let_def distinct_put split: option.splits if_splits)

lemma group_entries_map_of:
  assumes "group_entries es fg = Inr fg'"
  shows "map_of fg' g =
     (let new = map (\<lambda>e. \<lparr>path = drop 1 (split_parts (fst e)), fvalue = snd e\<rparr>)
                  (filter (\<lambda>e. base_name (split_parts (fst e)) = g) es)
      in if new = [] then map_of fg g
         else Some ((case map_of fg g of None \<Rightarrow> [] | Some fs \<Rightarrow> fs) @ new))"
  using assms
proof (induction es arbitrary: fg)
  case Nil
  then show ?case by simp
next
  case (Cons e es)
  from Cons.prems obtain fg1 where a: "add_entry e fg = Inr fg1"
    and g: "group_entries es fg1 = Inr fg'"
    by (auto split: sum.splits)
  show ?case
    using Cons.IH [OF g] add_entry_map_of [OF a, of g]
    by (auto simp: Let_def split: option.splits)
qed

lemma group_entries_distinct:
  assumes "group_entries es fg = Inr fg'" "distinct (map fst fg)"
  shows "distinct (map fst fg')"
  using assms
proof (induction es arbitrary: fg)
  case Nil
  then show ?case by simp
next
  case (Cons e es)
  from Cons.prems obtain fg1 where a: "add_entry e fg = Inr fg1"
    and g: "group_entries es fg1 = Inr fg'"
    by (auto split: sum.splits)
  show ?case using Cons.IH [OF g add_entry_distinct [OF a Cons.prems(2)]] .
qed

lemma fold_setNestedValue_empty:
  "\<forall>f\<in>set fs. isEmptyValue (fvalue f) \<Longrightarrow>
     fold (\<lambda>f obj. setNestedValue obj (path f) (fvalue f)) fs obj = obj"
  by (induction fs arbitrary: obj) (auto simp: setNestedValue_def)

lemma process_group_all_empty:
  "\<forall>f\<in>set fs. isEmptyValue (fvalue f) \<Longrightarrow> process_group fs = Obj Plain []"
  by (simp add: process_group_def fold_setNestedValue_empty Let_def)

lemma map_of_processFieldGroups:
  assumes "distinct (map fst fg)"
  shows "map_of (rev (processFieldGroups fg)) g = map_option process_group (map_of fg g)"
proof -
  have d: "distinct (map fst (processFieldGroups fg))"
    unfolding processFieldGroups_def
    using distinct_fold_put [of "[]" process_group fg] by simp
  have "map_of (processFieldGroups fg) g =
      (case map_of (rev fg) g of Some v \<Rightarrow> Some (process_group v) | None \<Rightarrow> None)"
    unfolding processFieldGroups_def
    using map_of_fold_put [of process_group fg "[]" g] by (auto split: option.splits)
  then show ?thesis
    by (simp add: map_of_rev_distinct [OF d] map_of_rev_distinct [OF assms] split: option.splits)
qed

section \<open>Facts about the order of properties\<close>

lemma digit_char_digit_val:
  assumes "is_digit 10 c"
  shows "\<exists>d < 10. digit_val c = Some d \<and> digit_char d = c"
proof -
  let ?n = "of_char c :: nat"
  from assms have r: "48 \<le> ?n \<and> ?n \<le> 57"
    by (auto simp: is_digit_def digit_val_def Let_def split: if_splits)
  then have "?n \<in> {48, 49, 50, 51, 52, 53, 54, 55, 56, 57}" by (simp, arith)
  then have "?n \<in> (of_char ` set ''0123456789'' :: nat set)" by auto
  then have "c \<in> set ''0123456789''" by (auto simp only: inj_image_mem_iff [OF inj_of_char])
  then show ?thesis by (auto simp: digit_val_def digit_char_def)
qed

lemma dec_ge_10: "10 \<le> n \<Longrightarrow> dec n = dec (n div 10) @ [digit_char (n mod 10)]"
  by (subst dec.simps) simp

lemma dec_lt_10: "n < 10 \<Longrightarrow> dec n = [digit_char n]"
  by (subst dec.simps) simp

lemma dec_digits_value:
  assumes "ds \<noteq> []" "list_all (is_digit 10) ds" "ds = ''0'' \<or> hd ds \<noteq> CHR ''0''"
  shows "dec (digits_value 10 0 ds) = ds"
  using assms
proof (induction ds rule: rev_nonempty_induct)
  case (single c)
  then obtain d where d: "d < 10" "digit_val c = Some d" "digit_char d = c"
    using digit_char_digit_val [of c] by auto
  then show ?case by (simp add: dec_lt_10)
next
  case (snoc c ds)
  from snoc.prems obtain d where d: "d < 10" "digit_val c = Some d" "digit_char d = c"
    using digit_char_digit_val [of c] by auto
  from snoc.hyps(1) snoc.prems have h: "hd ds \<noteq> CHR ''0''" by (cases ds) auto
  with snoc have ih: "dec (digits_value 10 0 ds) = ds" by simp
  have "digits_value 10 0 ds \<noteq> 0"
  proof
    assume "digits_value 10 0 ds = 0"
    with ih have "ds = ''0''" by (simp add: dec_zero)
    with h show False by simp
  qed
  then have ge: "10 \<le> digits_value 10 0 ds * 10 + d" by simp
  have "(digits_value 10 0 ds * 10 + d) div 10 = digits_value 10 0 ds"
    "(digits_value 10 0 ds * 10 + d) mod 10 = d"
    using d(1) by simp_all
  then show ?case
    by (simp add: digits_value_snoc d dec_ge_10 [OF ge] ih)
qed

lemma array_index_eq_dec: "array_index k = Some n \<Longrightarrow> k = dec n"
  using dec_digits_value [of k]
  by (auto simp: array_index_def split: if_splits)

lemma array_index_inj: "array_index k = Some n \<Longrightarrow> array_index k' = Some n \<Longrightarrow> k = k'"
  using array_index_eq_dec by blast

lemma ordered_keys_snoc:
  "ordered_keys (xs @ [k]) =
     (ordered_keys xs \<and> k \<notin> set xs \<and>
      (case array_index k of
         Some n \<Rightarrow> list_all (\<lambda>k'. case array_index k' of Some m \<Rightarrow> m < n | None \<Rightarrow> False) xs
       | None \<Rightarrow> True))"
  by (induction xs) (auto split: option.splits)

lemma insert_index_snoc:
  "list_all (\<lambda>k'. case array_index k' of Some m \<Rightarrow> m < n | None \<Rightarrow> False) (map fst ps) \<Longrightarrow>
     insert_index n k v ps = ps @ [(k, v)]"
  by (induction ps) (auto split: option.splits)

lemma put_snoc:
  assumes "ordered_keys (map fst ps @ [k])"
  shows "put k v ps = ps @ [(k, v)]"
proof -
  from assms have nk: "k \<notin> fst ` set ps" by (simp add: ordered_keys_snoc)
  then have "map_of ps k = None" by (simp add: map_of_None_iff)
  then show ?thesis
    using assms by (auto simp: put_def ordered_keys_snoc insert_index_snoc split: option.splits)
qed

lemma fold_put_ordered:
  "ordered_keys (map fst ps) \<Longrightarrow> fold (\<lambda>(k, v) r. put k v r) ps [] = ps"
proof (induction ps rule: rev_induct)
  case Nil
  then show ?case by simp
next
  case (snoc x ps)
  obtain k v where x: "x = (k, v)" by (cases x)
  from snoc.prems have o: "ordered_keys (map fst ps @ [k])" by (simp add: x)
  then have "ordered_keys (map fst ps)" by (simp add: ordered_keys_snoc)
  with snoc.IH have "fold (\<lambda>(k, v) r. put k v r) ps [] = ps" by simp
  then show ?case by (simp add: x put_snoc [OF o])
qed

lemma keys_insert_index: "set (map fst (insert_index n k v ps)) = insert k (set (map fst ps))"
  by (simp add: set_insert_index)

lemma ordered_insert_index:
  assumes "ordered_keys (map fst ps)" "array_index k = Some n" "k \<notin> fst ` set ps"
  shows "ordered_keys (map fst (insert_index n k v ps))"
  using assms
proof (induction ps)
  case Nil
  then show ?case by simp
next
  case (Cons a ps)
  obtain k' v' where a: "a = (k', v')" by (cases a)
  from Cons.prems have ne: "k' \<noteq> k" and nk: "k \<notin> fst ` set ps" by (auto simp: a)
  from Cons.prems have o: "ordered_keys (map fst ps)" by (simp add: a)
  show ?case
  proof (cases "array_index k'")
    case None
    with Cons.prems nk ne show ?thesis by (auto simp: a list_all_iff)
  next
    case (Some m)
    have mn: "m \<noteq> n" using array_index_inj [OF Some, of k] Cons.prems(2) ne by auto
    show ?thesis
    proof (cases "m < n")
      case True
      have ih: "ordered_keys (map fst (insert_index n k v ps))"
        using Cons.IH [OF o Cons.prems(2) nk] .
      from Cons.prems(1) have k'ps: "k' \<notin> set (map fst ps)"
        and la: "list_all (\<lambda>k''. case array_index k'' of Some m' \<Rightarrow> m < m' | None \<Rightarrow> True) (map fst ps)"
        by (simp_all add: a Some)
      have "k' \<notin> set (map fst (insert_index n k v ps))"
        using k'ps ne by (simp only: keys_insert_index) simp
      moreover have "list_all (\<lambda>k''. case array_index k'' of Some m' \<Rightarrow> m < m' | None \<Rightarrow> True)
          (map fst (insert_index n k v ps))"
        using la True Cons.prems(2) unfolding list_all_iff keys_insert_index by auto
      ultimately show ?thesis using ih True by (simp add: a Some)
    next
      case False
      with mn have nm: "n < m" by simp
      from Cons.prems(1) have
        la: "list_all (\<lambda>k''. case array_index k'' of Some m' \<Rightarrow> m < m' | None \<Rightarrow> True) (map fst ps)"
        by (simp add: a Some)
      have "list_all (\<lambda>k''. case array_index k'' of Some m' \<Rightarrow> n < m' | None \<Rightarrow> True) (map fst ps)"
        using la nm unfolding list_all_iff by (auto split: option.splits)
      then show ?thesis
        using Cons.prems False nm nk ne by (simp add: a Some)
    qed
  qed
qed

lemma ordered_put:
  assumes "ordered_keys (map fst ps)"
  shows "ordered_keys (map fst (put k v ps))"
proof (cases "map_of ps k")
  case (Some w)
  then have "put k v ps = map (\<lambda>(k', v'). if k' = k then (k', v) else (k', v')) ps"
    by (simp add: put_def)
  then have "map fst (put k v ps) = map fst ps" by (simp only: keys_update_in_place)
  with assms show ?thesis by simp
next
  case None
  then have nk: "k \<notin> fst ` set ps" by (simp add: map_of_None_iff)
  show ?thesis
  proof (cases "array_index k")
    case (Some n)
    then show ?thesis using None ordered_insert_index [OF assms Some nk] by (simp add: put_def)
  next
    case None': None
    have "ordered_keys (map fst ps @ [k])"
      using assms nk None' by (simp add: ordered_keys_snoc)
    then show ?thesis using None None' by (simp add: put_def)
  qed
qed

section \<open>Facts about normalization\<close>

lemma present_map_option: "present (map (map_option f) xs) = map f (present xs)"
  by (induction xs) (auto simp: present_def split: option.splits)

lemma present_map_Some: "present (map Some vs) = vs"
  by (induction vs) (auto simp: present_def)

lemma present_append: "present (xs @ ys) = present xs @ present ys"
  by (simp add: present_def)

lemma present_replicate_None: "present (replicate n None) = []"
  by (induction n) (auto simp: present_def)

lemma normalizeStructure_Arr:
  "normalizeStructure (Arr xs ps) =
     dense (filter (\<lambda>v. \<not> falsy v) (map normalizeStructure (present xs)))"
  by (simp add: present_map_option)

lemma normalizeStructure_dense:
  "normalizeStructure (dense vs) = dense (filter (\<lambda>v. \<not> falsy v) (map normalizeStructure vs))"
  by (simp add: dense_def present_map_option present_map_Some del: normalizeStructure.simps
      add: normalizeStructure_Arr [unfolded dense_def])

lemma set_present: "set (present xs) = {v. Some v \<in> set xs}"
  by (induction xs) (auto simp: present_def split: option.splits)

lemma present_arr_set: "set (present (arr_set xs i v)) \<subseteq> insert v (set (present xs))"
  by (auto simp: arr_set_def set_present dest: set_update_subset_insert [THEN subsetD])

lemma fold_set_prop_present:
  assumes "\<forall>key\<in>set ks. g key \<in> V" "set (present xs) \<subseteq> V"
    "fold (\<lambda>key a. set_prop a (f key) (g key)) ks (Arr xs ps) = Arr ys qs"
  shows "set (present ys) \<subseteq> V"
  using assms
proof (induction ks arbitrary: xs ps)
  case Nil
  then show ?case by simp
next
  case (Cons key ks)
  show ?case
  proof (cases "array_index (f key)")
    case None
    with Cons.prems(3) have
      "fold (\<lambda>key a. set_prop a (f key) (g key)) ks (Arr xs (put (f key) (g key) ps)) = Arr ys qs"
      by simp
    then show ?thesis using Cons.IH [of xs] Cons.prems(1,2) by simp
  next
    case (Some i)
    with Cons.prems(3) have
      f: "fold (\<lambda>key a. set_prop a (f key) (g key)) ks (Arr (arr_set xs i (g key)) ps) = Arr ys qs"
      by simp
    have "set (present (arr_set xs i (g key))) \<subseteq> V"
      using present_arr_set [of xs i "g key"] Cons.prems(1,2) by auto
    then show ?thesis using Cons.IH [OF _ _ f] Cons.prems(1) by simp
  qed
qed

lemma set_insert_key: "set (insert_key a bs) = insert a (set bs)"
  by (induction bs) auto

lemma set_fold_insert_key: "set (fold insert_key ks acc) = set ks \<union> set acc"
  by (induction ks arbitrary: acc) (auto simp: set_insert_key)

lemma set_sort_keys: "set (sort_keys ks) = set ks"
  by (simp add: sort_keys_def set_fold_insert_key)

lemma lookup_in_values: "k \<in> fst ` set ps \<Longrightarrow> lookup ps k \<in> snd ` set ps"
proof -
  assume "k \<in> fst ` set ps"
  then obtain v where "map_of ps k = Some v"
    by (cases "map_of ps k") (auto simp: map_of_None_iff)
  then show ?thesis using map_of_SomeD [of ps k v] by (force simp: lookup_def)
qed

lemma convertToArray_of_values:
  "\<exists>zs. convertToArray_of nps = dense zs \<and> set zs \<subseteq> snd ` set nps \<and> Undef \<notin> set zs"
proof -
  let ?f = "\<lambda>key. num_key (parseInt key)"
  obtain ys qs where
    fo: "fold (\<lambda>key a. set_prop a (?f key) (lookup nps key)) (sort_keys (map fst nps)) (Arr [] []) = Arr ys qs"
    using fold_set_prop_Arr [of ?f "lookup nps" "sort_keys (map fst nps)" "[]" "[]"] by blast
  have "\<forall>key\<in>set (sort_keys (map fst nps)). lookup nps key \<in> snd ` set nps"
    by (simp add: set_sort_keys lookup_in_values)
  then have "set (present ys) \<subseteq> snd ` set nps"
    using fold_set_prop_present [OF _ _ fo, of "snd ` set nps"] by (simp add: present_def)
  then show ?thesis
    unfolding convertToArray_of_def fo by (intro exI [of _ "filter (\<lambda>val. val \<noteq> Undef) (present ys)"]) auto
qed

lemma values_put: "snd ` set (put k v ps) \<subseteq> insert v (snd ` set ps)"
proof (cases "map_of ps k")
  case None
  then show ?thesis by (auto simp: put_def set_insert_index split: option.splits)
next
  case (Some a)
  then show ?thesis by (auto simp: put_def split: if_splits)
qed

lemma fold_put_skip_undef:
  "Undef \<notin> snd ` set X \<Longrightarrow>
     fold (\<lambda>(key, normalized) resultObj.
             if normalized \<noteq> Undef then put key normalized resultObj else resultObj) X acc =
     fold (\<lambda>(k, v) r. put k v r) X acc"
  by (induction X arbitrary: acc) (auto simp: image_iff)

lemma keys_fold_put:
  "fst ` set (fold (\<lambda>(k, v) r. put k v r) X acc) = fst ` set X \<union> fst ` set acc"
proof (induction X arbitrary: acc)
  case Nil
  then show ?case by simp
next
  case (Cons a X)
  obtain k v where a: "a = (k, v)" by (cases a)
  show ?case unfolding a using Cons.IH [of "put k v acc"] by (simp add: keys_put)
qed

lemma values_fold_put:
  "snd ` set (fold (\<lambda>(k, v) r. put k v r) X acc) \<subseteq> snd ` set X \<union> snd ` set acc"
proof (induction X arbitrary: acc)
  case Nil
  then show ?case by simp
next
  case (Cons a X)
  obtain k v where a: "a = (k, v)" by (cases a)
  show ?case using Cons.IH [of "put k v acc"] values_put [of k v acc] by (auto simp: a)
qed

lemma ordered_fold_put:
  "ordered_keys (map fst acc) \<Longrightarrow> ordered_keys (map fst (fold (\<lambda>(k, v) r. put k v r) X acc))"
  by (induction X arbitrary: acc) (auto simp: ordered_put)

lemma normalizeStructure_Obj:
  "normalizeStructure (Obj t ps) =
     (let nps = map (\<lambda>(key, v). (key, normalizeStructure v)) ps
      in if map fst ps \<noteq> [] \<and> list_all isNumericKey (map fst ps) then convertToArray_of nps
         else Obj Plain
                (fold (\<lambda>(key, normalized) resultObj.
                         if normalized \<noteq> Undef then put key normalized resultObj else resultObj)
                   nps []))"
  by (simp add: Let_def)

lemma normalizeStructure_fixed_dense:
  assumes "\<forall>z\<in>set zs. \<not> falsy z \<and> normalizeStructure z = z"
  shows "normalizeStructure (dense zs) = dense zs"
proof -
  have "map normalizeStructure zs = zs" using assms by (simp add: map_idI)
  moreover have "filter (\<lambda>v. \<not> falsy v) zs = zs" using assms by simp
  ultimately show ?thesis by (simp add: normalizeStructure_dense)
qed

lemma normalizeStructure_Obj_fixed:
  assumes fx: "\<forall>w\<in>snd ` set nps. \<not> falsy w \<and> normalizeStructure w = w"
    and nn: "\<not> (map fst nps \<noteq> [] \<and> list_all isNumericKey (map fst nps))"
  shows "normalizeStructure (Obj Plain (fold (\<lambda>(k, v) r. put k v r) nps [])) =
         Obj Plain (fold (\<lambda>(k, v) r. put k v r) nps [])"
proof -
  define R where "R = fold (\<lambda>(k, v) r. put k v r) nps []"
  have keys: "fst ` set R = fst ` set nps" unfolding R_def by (simp add: keys_fold_put)
  have vals: "snd ` set R \<subseteq> snd ` set nps"
    unfolding R_def using values_fold_put [of nps "[]"] by simp
  have ord: "ordered_keys (map fst R)" unfolding R_def by (rule ordered_fold_put) simp
  have sk: "set (map fst R) = set (map fst nps)" using keys by simp
  have "(map fst R = []) = (map fst nps = [])"
    using sk by (metis set_empty)
  moreover have "list_all isNumericKey (map fst R) = list_all isNumericKey (map fst nps)"
    unfolding list_all_iff sk ..
  ultimately have nn': "\<not> (map fst R \<noteq> [] \<and> list_all isNumericKey (map fst R))"
    using nn by simp
  have fxR: "\<forall>w\<in>snd ` set R. \<not> falsy w \<and> normalizeStructure w = w"
    using fx vals by blast
  have m: "map (\<lambda>(key, v). (key, normalizeStructure v)) R = R"
    by (rule map_idI) (use fxR in force)
  have nu: "Undef \<notin> snd ` set R" using fxR by force
  have "normalizeStructure (Obj Plain R) = Obj Plain (fold (\<lambda>(k, v) r. put k v r) R [])"
    unfolding normalizeStructure_Obj Let_def m using nn' fold_put_skip_undef [OF nu] by auto
  then show ?thesis unfolding R_def [symmetric] by (simp add: fold_put_ordered [OF ord])
qed

lemma normalizeStructure_idem_aux:
  "nonempty_leaves t \<Longrightarrow>
     \<not> falsy (normalizeStructure t) \<and> normalizeStructure (normalizeStructure t) = normalizeStructure t"
proof (induction t)
  case Undef
  then show ?case by simp
next
  case Null
  then show ?case by simp
next
  case (Str s)
  then show ?case by simp
next
  case (Obj t ps)
  define nps where "nps = map (\<lambda>(key, v). (key, normalizeStructure v)) ps"
  have fx: "\<forall>w\<in>snd ` set nps. \<not> falsy w \<and> normalizeStructure w = w"
  proof
    fix w assume "w \<in> snd ` set nps"
    then obtain k v where kv: "(k, v) \<in> set ps" and w: "w = normalizeStructure v"
      unfolding nps_def by auto
    from Obj.prems kv have "nonempty_leaves v" by (auto simp: list_all_iff)
    with Obj.IH [of "(k, v)" v] kv show "\<not> falsy w \<and> normalizeStructure w = w"
      by (simp add: w)
  qed
  have keys: "map fst nps = map fst ps" unfolding nps_def by (induction ps) auto
  show ?case
  proof (cases "map fst ps \<noteq> [] \<and> list_all isNumericKey (map fst ps)")
    case True
    then have n: "normalizeStructure (Obj t ps) = convertToArray_of nps"
      unfolding normalizeStructure_Obj Let_def nps_def by simp
    obtain zs where zs: "convertToArray_of nps = dense zs" "set zs \<subseteq> snd ` set nps"
      using convertToArray_of_values by blast
    have "\<forall>z\<in>set zs. \<not> falsy z \<and> normalizeStructure z = z" using fx zs(2) by blast
    then have b: "normalizeStructure (dense zs) = dense zs" by (rule normalizeStructure_fixed_dense)
    have a: "\<not> falsy (dense zs)" by (simp add: dense_def)
    show ?thesis unfolding n zs(1) using a b by blast
  next
    case False
    have nu: "Undef \<notin> snd ` set nps" using fx by force
    have n: "normalizeStructure (Obj t ps) = Obj Plain (fold (\<lambda>(k, v) r. put k v r) nps [])"
      unfolding normalizeStructure_Obj Let_def nps_def [symmetric]
      using False fold_put_skip_undef [OF nu] by auto
    have nn: "\<not> (map fst nps \<noteq> [] \<and> list_all isNumericKey (map fst nps))"
      using False by (simp add: keys)
    have a: "\<not> falsy (Obj Plain (fold (\<lambda>(k, v) r. put k v r) nps []))" by simp
    show ?thesis
      unfolding n using normalizeStructure_Obj_fixed [OF fx nn] a by blast
  qed
next
  case (Arr xs ps)
  have fx: "\<forall>z\<in>set (map normalizeStructure (present xs)). \<not> falsy z \<and> normalizeStructure z = z"
  proof
    fix z assume "z \<in> set (map normalizeStructure (present xs))"
    then obtain v where v: "Some v \<in> set xs" and z: "z = normalizeStructure v"
      by (auto simp: set_present)
    from Arr.prems v have "nonempty_leaves v" by (auto simp: list_all_iff)
    with Arr.IH(1) [of "Some v" v] v show "\<not> falsy z \<and> normalizeStructure z = z"
      by (simp add: z)
  qed
  then have "filter (\<lambda>v. \<not> falsy v) (map normalizeStructure (present xs)) =
      map normalizeStructure (present xs)" by simp
  then have n: "normalizeStructure (Arr xs ps) = dense (map normalizeStructure (present xs))"
    by (simp only: normalizeStructure_Arr)
  have a: "\<not> falsy (dense (map normalizeStructure (present xs)))" by (simp add: dense_def)
  show ?case
    unfolding n using normalizeStructure_fixed_dense [OF fx] a by blast
qed


section \<open>Facts about groups of indexed entries\<close>

lemma put_empty: "put k v [] = [(k, v)]"
  by (simp add: put_def split: option.splits)

lemma present_single: "present [Some v] = [v]"
  by (simp add: present_def)

lemma array_filter_dense: "array_filter P (dense vs) = dense (filter P vs)"
  by (simp add: dense_def present_map_Some)

lemma normalizeStructure_container:
  assumes "\<not> falsy c" "typeof_object c"
  shows "\<not> falsy (normalizeStructure c) \<and> typeof_object (normalizeStructure c)"
  using assms
proof (cases c rule: container_cases)
  case (1 t ps)
  obtain vs where "convertToArray_of (map (\<lambda>(key, v). (key, normalizeStructure v)) ps) = dense vs"
    using convertToArray_of_dense by blast
  then show ?thesis unfolding 1 normalizeStructure_Obj Let_def by (simp add: dense_def)
next
  case (2 xs ps)
  show ?thesis unfolding 2 normalizeStructure_Arr by (simp add: dense_def)
qed

text \<open>What one entry alone builds under its first fragment.\<close>

lemma setNestedValue_new_key:
  assumes "map_of T w = None" "trim s \<noteq> []"
  shows "setNestedValue (Obj Plain T) (w # rest) (Str s) =
         Obj Plain (put w (get_prop (setNestedValue (Obj Plain []) (w # rest) (Str s)) w) T)"
proof (cases rest)
  case Nil
  then show ?thesis using assms(2)
    by (simp add: setNestedValue_def isEmptyValue_def lookup_put)
next
  case (Cons k ks)
  have l: "lookup T w = Undef" "lookup [] w = Undef" using assms(1) by (simp_all add: lookup_def)
  show ?thesis using assms(2)
    by (simp add: Cons setNestedValue_def isEmptyValue_def Let_def l lookup_put)
qed

lemma single_entry_kept:
  assumes "trim s \<noteq> []"
  shows "normalizeStructure (get_prop (setNestedValue (Obj Plain []) (w # rest) (Str s)) w) \<noteq> Undef \<and>
         keep_item (normalizeStructure (get_prop (setNestedValue (Obj Plain []) (w # rest) (Str s)) w))"
proof (cases rest)
  case Nil
  then show ?thesis using assms
    by (simp add: setNestedValue_def isEmptyValue_def lookup_put)
next
  case (Cons k ks)
  define fresh where "fresh = (if isNumericKey k then Arr [] [] else Obj Plain [])"
  have l: "lookup [] w = Undef" by (simp add: lookup_def)
  have ch: "get_prop (setNestedValue (Obj Plain []) (w # rest) (Str s)) w =
      set_path fresh (k # ks) (Str s)"
    using assms
    by (simp add: Cons setNestedValue_def isEmptyValue_def Let_def lookup_put fresh_def l)
  show ?thesis
  proof (cases "isNumericKey k")
    case True
    have "isArray (set_path fresh (k # ks) (Str s))"
      using set_path_container [of fresh "k # ks" "Str s"] True by (simp add: fresh_def)
    then obtain xs ps where "set_path fresh (k # ks) (Str s) = Arr xs ps"
      by (cases "set_path fresh (k # ks) (Str s)") auto
    then show ?thesis unfolding ch by (simp add: normalizeStructure_Arr dense_def
          del: normalizeStructure.simps set_path.simps(2,3))
  next
    case False
    then have fr: "fresh = Obj Plain []" by (simp add: fresh_def)
    define sub where "sub = (case ks of [] \<Rightarrow> Str s | k2 # ks2 \<Rightarrow>
        set_path (if isNumericKey k2 then Arr [] [] else Obj Plain []) ks (Str s))"
    have sp: "set_path fresh (k # ks) (Str s) = Obj Plain [(k, sub)]"
      by (cases ks) (simp_all add: fr sub_def Let_def lookup_def put_empty)
    define nsub where "nsub = normalizeStructure sub"
    have ns: "nsub \<noteq> Undef \<and> nsub \<noteq> Null \<and>
        ((case nsub of Str s \<Rightarrow> trim s \<noteq> [] | _ \<Rightarrow> False) \<or> \<not> is_string nsub)"
    proof (cases ks)
      case Nil
      then show ?thesis using assms by (simp add: nsub_def sub_def)
    next
      case (Cons k2 ks2)
      let ?f = "if isNumericKey k2 then Arr [] [] else Obj Plain []"
      have "\<not> falsy (set_path ?f ks (Str s)) \<and> typeof_object (set_path ?f ks (Str s))"
        using set_path_container [of ?f ks "Str s"] by simp
      then have "\<not> falsy nsub \<and> typeof_object nsub"
        unfolding nsub_def sub_def Cons list.case
        using normalizeStructure_container by (simp add: Cons)
      then show ?thesis by (cases nsub) auto
    qed
    have "normalizeStructure (Obj Plain [(k, sub)]) = Obj Plain [(k, nsub)]"
      unfolding normalizeStructure_Obj Let_def using False ns
      by (simp add: nsub_def put_empty del: normalizeStructure.simps)
    then show ?thesis unfolding ch sp using ns by simp
  qed
qed

lemma cmp_keys_numeric:
  "parseInt a = Some x \<Longrightarrow> parseInt b = Some y \<Longrightarrow> cmp_keys a b = x - y"
  by (simp add: cmp_keys_def)

lemma sorted_insert_key:
  assumes "\<forall>k\<in>set (a # bs). parseInt k \<noteq> None"
    and "sorted (map (\<lambda>k. the (parseInt k)) bs)"
  shows "sorted (map (\<lambda>k. the (parseInt k)) (insert_key a bs))"
  using assms
proof (induction bs)
  case Nil
  then show ?case by simp
next
  case (Cons b bs)
  from Cons.prems(1) obtain x y where xy: "parseInt a = Some x" "parseInt b = Some y" by auto
  show ?case
  proof (cases "cmp_keys a b < 0")
    case True
    then have "x < y" using xy by (simp add: cmp_keys_numeric)
    then show ?thesis using True Cons.prems(2) xy by auto
  next
    case False
    then have le: "y \<le> x" using xy by (simp add: cmp_keys_numeric)
    have ih: "sorted (map (\<lambda>k. the (parseInt k)) (insert_key a bs))"
      using Cons.IH Cons.prems by simp
    show ?thesis using False ih le xy Cons.prems(2) by (auto simp: set_insert_key)
  qed
qed

lemma sorted_fold_insert_key:
  assumes "\<forall>k\<in>set (ks @ acc). parseInt k \<noteq> None"
    and "sorted (map (\<lambda>k. the (parseInt k)) acc)"
  shows "sorted (map (\<lambda>k. the (parseInt k)) (fold insert_key ks acc))"
  using assms
proof (induction ks arbitrary: acc)
  case Nil
  then show ?case by simp
next
  case (Cons k ks)
  have "sorted (map (\<lambda>k. the (parseInt k)) (insert_key k acc))"
    using Cons.prems by (intro sorted_insert_key) auto
  moreover have "\<forall>k\<in>set (ks @ insert_key k acc). parseInt k \<noteq> None"
    using Cons.prems by (auto simp: set_insert_key)
  ultimately show ?case using Cons.IH by simp
qed

lemma distinct_insert_key: "distinct (insert_key a bs) = (a \<notin> set bs \<and> distinct bs)"
  by (induction bs) (auto simp: set_insert_key)

lemma distinct_fold_insert_key: "distinct (ks @ acc) \<Longrightarrow> distinct (fold insert_key ks acc)"
proof (induction ks arbitrary: acc)
  case Nil
  then show ?case by simp
next
  case (Cons k ks)
  have "distinct (ks @ insert_key k acc)"
    using Cons.prems by (auto simp: distinct_insert_key set_insert_key)
  then show ?case using Cons.IH by simp
qed

text \<open>The sort of \<open>convertToArray\<close> on keys with pairwise different indices.\<close>

lemma sort_keys_by_index:
  assumes p: "\<forall>e\<in>set L. parseInt (frag e) = Some (int (idx e))"
    and d: "distinct (map idx L)" and s: "set ks = frag ` set L" and dk: "distinct ks"
  shows "sort_keys ks = map frag (sort_key idx L)"
proof -
  let ?key = "\<lambda>k. the (parseInt k)"
  let ?A = "sort_keys ks" and ?B = "map frag (sort_key idx L)"
  have kw: "?key (frag e) = int (idx e)" if "e \<in> set L" for e using p that by simp
  have num: "\<forall>k\<in>set (ks @ []). parseInt k \<noteq> None" using p s by auto
  have sA: "sorted (map ?key ?A)"
    unfolding sort_keys_def by (rule sorted_fold_insert_key [OF num]) simp
  have dA: "distinct ?A" unfolding sort_keys_def
    by (rule distinct_fold_insert_key) (simp add: dk)
  have setA: "set ?A = frag ` set L" by (simp add: set_sort_keys s)
  have inj: "inj_on ?key (frag ` set L)"
  proof (rule inj_onI)
    fix a b assume "a \<in> frag ` set L" "b \<in> frag ` set L" "?key a = ?key b"
    then obtain e f where ef: "e \<in> set L" "f \<in> set L" "a = frag e" "b = frag f"
      "int (idx e) = int (idx f)"
      using kw by auto
    from d have "inj_on idx (set L)" by (simp add: distinct_map)
    with ef have "e = f" by (auto dest: inj_onD)
    then show "a = b" by (simp add: ef)
  qed
  have mB: "map ?key ?B = map (\<lambda>e. int (idx e)) (sort_key idx L)"
    using kw by simp
  have sB: "sorted (map ?key ?B)"
  proof -
    have "sorted (map idx (sort_key idx L))" by simp
    then have "sorted (map int (map idx (sort_key idx L)))"
      by (simp add: sorted_map comp_def del: sorted_sort_key) 
    then show ?thesis unfolding mB by (simp add: comp_def)
  qed
  have dB: "distinct (map ?key ?B)"
  proof -
    have "distinct (map idx (sort_key idx L))" using d by (simp add: distinct_map)
    then have "distinct (map int (map idx (sort_key idx L)))"
      by (subst distinct_map) (simp add: inj_on_def)
    then show ?thesis unfolding mB by (simp add: comp_def)
  qed
  have dA': "distinct (map ?key ?A)"
    by (subst distinct_map) (use dA inj setA in simp)
  have "set (map ?key ?A) = set (map ?key ?B)" by (simp add: setA image_image)
  with sA dA' sB dB have eq: "map ?key ?A = map ?key ?B"
    by (intro sorted_distinct_set_unique)
  have "inj_on ?key (set ?A \<union> set ?B)" using inj by (simp add: setA)
  then show ?thesis using eq by (rule inj_on_map_eq_map [THEN iffD1])
qed

text \<open>The assignments of \<open>convertToArray\<close> in ascending order of the indices: each one
  extends the array.\<close>

lemma fold_set_prop_by_index:
  assumes "sorted (map idx L)" "distinct (map idx L)"
    and "\<forall>e\<in>set L. length xs \<le> idx e \<and> idx e < 4294967295 \<and> parseInt (frag e) = Some (int (idx e))"
  shows "\<exists>ys. fold (\<lambda>key a. set_prop a (num_key (parseInt key)) (look key))
                 (map frag L) (Arr xs ps) = Arr ys ps \<and>
              present ys = present xs @ map (\<lambda>e. look (frag e)) L"
  using assms
proof (induction L arbitrary: xs)
  case Nil
  then show ?case by simp
next
  case (Cons e L)
  define n where "n = idx e"
  define xs' where "xs' = xs @ replicate (n - length xs) None @ [Some (look (frag e))]"
  from Cons.prems(3) have n: "length xs \<le> n" "n < 4294967295" "parseInt (frag e) = Some (int n)"
    by (auto simp: n_def)
  have as: "arr_set xs n (look (frag e)) = xs'" using n(1) by (simp add: arr_set_def xs'_def)
  have nk: "num_key (parseInt (frag e)) = dec n" by (simp add: n(3) num_key_def num_to_string_def)
  have st: "set_prop (Arr xs ps) (num_key (parseInt (frag e))) (look (frag e)) = Arr xs' ps"
    using n(2) by (simp add: nk array_index_dec as)
  have len: "length xs' = Suc n" using n(1) by (simp add: xs'_def)
  have pr: "present xs' = present xs @ [look (frag e)]"
    by (simp add: xs'_def present_append present_replicate_None present_single)
  have gt: "\<forall>f\<in>set L. length xs' \<le> idx f \<and> idx f < 4294967295 \<and>
      parseInt (frag f) = Some (int (idx f))"
  proof
    fix f assume f: "f \<in> set L"
    then have mm: "idx f \<in> set (map idx L)" by force
    with Cons.prems(1) have "n \<le> idx f" by (auto simp: n_def)
    moreover from mm Cons.prems(2) have "n \<noteq> idx f" by (auto simp: n_def)
    ultimately show "length xs' \<le> idx f \<and> idx f < 4294967295 \<and>
        parseInt (frag f) = Some (int (idx f))"
      using Cons.prems(3) f by (simp add: len)
  qed
  have s': "sorted (map idx L)" "distinct (map idx L)" using Cons.prems(1,2) by simp_all
  from Cons.IH [OF s' gt] obtain ys where
    ys: "fold (\<lambda>key a. set_prop a (num_key (parseInt key)) (look key))
           (map frag L) (Arr xs' ps) = Arr ys ps"
      "present ys = present xs' @ map (\<lambda>e. look (frag e)) L"
    by blast
  show ?case
    by (rule exI [of _ ys]) (simp add: st ys pr del: set_prop.simps)
qed

lemma fold_setNestedValue_new_keys:
  assumes "distinct (map frag L)" "\<forall>e\<in>set L. map_of T (frag e) = None \<and> trim (str e) \<noteq> []"
  shows "fold (\<lambda>f obj. setNestedValue obj (path f) (fvalue f))
           (map (\<lambda>e. \<lparr>path = frag e # rest e, fvalue = Str (str e)\<rparr>) L) (Obj Plain T) =
         Obj Plain (fold (\<lambda>(k, v) r. put k v r)
           (map (\<lambda>e. (frag e,
              get_prop (setNestedValue (Obj Plain []) (frag e # rest e) (Str (str e))) (frag e))) L) T)"
  using assms
proof (induction L arbitrary: T)
  case Nil
  then show ?case by simp
next
  case (Cons e L)
  let ?x = "get_prop (setNestedValue (Obj Plain []) (frag e # rest e) (Str (str e))) (frag e)"
  have st: "setNestedValue (Obj Plain T) (frag e # rest e) (Str (str e)) =
      Obj Plain (put (frag e) ?x T)"
    using Cons.prems(2) by (intro setNestedValue_new_key) simp_all
  have "frag f \<noteq> frag e" if "f \<in> set L" for f
    using Cons.prems(1) that by (metis distinct.simps(2) image_eqI list.simps(9) set_map)
  then have "\<forall>f\<in>set L. map_of (put (frag e) ?x T) (frag f) = None \<and> trim (str f) \<noteq> []"
    using Cons.prems(2) by (simp add: map_of_put)
  moreover have "distinct (map frag L)" using Cons.prems(1) by simp
  ultimately show ?case using Cons.IH [of "put (frag e) ?x T"] by (simp add: st)
qed

lemma lookup_map_normalize:
  "lookup (map (\<lambda>(key, v). (key, normalizeStructure v)) T) k = normalizeStructure (lookup T k)"
proof -
  have "map_of (map (\<lambda>(key, v). (key, normalizeStructure v)) T) k =
      map_option normalizeStructure (map_of T k)"
    by (induction T) (auto simp del: normalizeStructure.simps)
  then show ?thesis by (cases "map_of T k") (simp_all add: lookup_def)
qed

lemma process_group_by_index:
  assumes ne: "L \<noteq> []" and d: "distinct (map idx L)"
    and h: "\<forall>e\<in>set L. parseInt (frag e) = Some (int (idx e)) \<and> idx e < 4294967295 \<and>
              trim (str e) \<noteq> []"
  shows "process_group (map (\<lambda>e. \<lparr>path = frag e # rest e, fvalue = Str (str e)\<rparr>) L) =
         dense (map (\<lambda>e. normalizeStructure
                   (get_prop (setNestedValue (Obj Plain []) (frag e # rest e) (Str (str e))) (frag e)))
                 (sort_key idx L))"
proof -
  define el where
    "el e = get_prop (setNestedValue (Obj Plain []) (frag e # rest e) (Str (str e))) (frag e)" for e
  define Y where "Y = map (\<lambda>e. (frag e, el e)) L"
  define T where "T = fold (\<lambda>(k, v) r. put k v r) Y []"
  define nps where "nps = map (\<lambda>(key, v). (key, normalizeStructure v)) T"
  define S where "S = sort_key idx L"
  have injf: "idx e = idx f" if "e \<in> set L" "f \<in> set L" "frag e = frag f" for e f
  proof -
    have a: "parseInt (frag e) = Some (int (idx e))" using h that(1) by simp
    have b: "parseInt (frag f) = Some (int (idx f))" using h that(2) by simp
    show ?thesis using a b that(3) by simp
  qed
  have dw: "distinct (map frag L)"
  proof -
    have ii: "inj_on idx (set L)" and dl: "distinct L" using d by (simp_all add: distinct_map)
    have "inj_on frag (set L)"
    proof (rule inj_onI)
      fix a b assume ab: "a \<in> set L" "b \<in> set L" "frag a = frag b"
      then have "idx a = idx b" by (rule injf)
      with ii ab(1,2) show "a = b" by (simp add: inj_on_def)
    qed
    with dl show ?thesis by (simp add: distinct_map)
  qed
  have tmp: "fold (\<lambda>f obj. setNestedValue obj (path f) (fvalue f))
      (map (\<lambda>e. \<lparr>path = frag e # rest e, fvalue = Str (str e)\<rparr>) L) (Obj Plain []) = Obj Plain T"
    unfolding T_def Y_def el_def
    by (rule fold_setNestedValue_new_keys [OF dw]) (use h in simp)
  have dY: "distinct (map fst Y)" using dw by (simp add: Y_def comp_def)
  have kT: "fst ` set T = frag ` set L"
    unfolding T_def by (simp add: keys_fold_put Y_def image_image)
  have dT: "distinct (map fst T)"
    unfolding T_def using distinct_fold_put [of "[]" "\<lambda>v. v" Y] by simp
  have mT: "map_of T = map_of Y"
  proof
    fix x
    have "map_of T x = (case map_of (rev Y) x of Some v \<Rightarrow> Some v | None \<Rightarrow> map_of [] x)"
      unfolding T_def by (rule map_of_fold_put [of "\<lambda>v. v"])
    then show "map_of T x = map_of Y x"
      by (simp add: map_of_rev_distinct [OF dY] split: option.splits)
  qed
  have lT: "lookup T (frag e) = el e" if "e \<in> set L" for e
  proof -
    have "(frag e, el e) \<in> set Y" using that by (auto simp: Y_def)
    with dY have "map_of Y (frag e) = Some (el e)" by (rule map_of_is_SomeI)
    then show ?thesis by (simp add: lookup_def mT)
  qed
  have kn: "map fst nps = map fst T" by (simp add: nps_def comp_def split_def)
  have sk: "sort_keys (map fst nps) = map frag S"
    unfolding kn S_def
  proof (rule sort_keys_by_index)
    show "\<forall>e\<in>set L. parseInt (frag e) = Some (int (idx e))" using h by simp
    show "distinct (map idx L)" by (rule d)
    show "set (map fst T) = frag ` set L" using kT by simp
    show "distinct (map fst T)" by (rule dT)
  qed
  have hS: "\<forall>e\<in>set S. length ([] :: jsval option list) \<le> idx e \<and> idx e < 4294967295 \<and>
      parseInt (frag e) = Some (int (idx e))"
    using h by (simp add: S_def)
  have sS: "sorted (map idx S)" "distinct (map idx S)"
    using d by (simp_all add: S_def distinct_map)
  from fold_set_prop_by_index [OF sS hS, of "lookup nps" "[]"] obtain ys where
    ys: "fold (\<lambda>key a. set_prop a (num_key (parseInt key)) (lookup nps key))
           (map frag S) (Arr [] []) = Arr ys []"
      "present ys = present [] @ map (\<lambda>e. lookup nps (frag e)) S"
    by blast
  have pn: "present ([] :: jsval option list) = []" by (simp add: present_def)
  have le: "map (\<lambda>e. lookup nps (frag e)) S = map (\<lambda>e. normalizeStructure (el e)) S"
    by (rule map_cong) (simp_all add: nps_def lookup_map_normalize lT S_def)
  have kept: "normalizeStructure (el e) \<noteq> Undef \<and> keep_item (normalizeStructure (el e))"
    if "e \<in> set L" for e
    unfolding el_def using h that by (intro single_entry_kept) simp
  have f1: "filter (\<lambda>val. val \<noteq> Undef) (map (\<lambda>e. normalizeStructure (el e)) S) =
      map (\<lambda>e. normalizeStructure (el e)) S"
    using kept by (simp add: S_def filter_id_conv)
  have f2: "filter keep_item (map (\<lambda>e. normalizeStructure (el e)) S) =
      map (\<lambda>e. normalizeStructure (el e)) S"
    using kept by (simp add: S_def filter_id_conv)
  have ca: "convertToArray_of nps = dense (map (\<lambda>e. normalizeStructure (el e)) S)"
    unfolding convertToArray_of_def sk ys(1) by (simp add: ys(2) pn le f1)
  have num: "map fst T \<noteq> [] \<and> list_all isNumericKey (map fst T)"
  proof -
    have "set (map fst T) = frag ` set L" using kT by simp
    then have "map fst T \<noteq> []" using ne by auto
    moreover have "list_all isNumericKey (map fst T)"
      using kT h by (auto simp: list_all_iff isNumericKey_def)
    ultimately show ?thesis by simp
  qed
  have n: "normalizeStructure (Obj Plain T) = dense (map (\<lambda>e. normalizeStructure (el e)) S)"
    unfolding normalizeStructure_Obj Let_def nps_def [symmetric] using num ca by simp
  have ia: "list_all (\<lambda>f. path f \<noteq> [] \<and> isNumericKey (hd (path f)))
      (map (\<lambda>e. \<lparr>path = frag e # rest e, fvalue = Str (str e)\<rparr>) L)"
    using h by (auto simp: list_all_iff isNumericKey_def)
  have isd: "isArray (dense vs)" for vs by (simp add: dense_def)
  show ?thesis
    unfolding process_group_def Let_def tmp n el_def [symmetric] S_def [symmetric]
    using ia by (simp add: array_filter_dense f2 isd)
qed

section \<open>Facts about the shape of numeric fragments\<close>

lemma parseInt_shape:
  assumes "parseInt w = Some n"
  shows "\<exists>ws sg c rest. w = ws @ sg @ c # rest \<and> list_all is_ws ws \<and>
           (sg = [] \<or> sg = ''-'' \<or> sg = ''+'') \<and> is_digit 10 c"
proof -
  define s1 where "s1 = dropWhile is_ws w"
  define sg where "sg = (if s1 \<noteq> [] \<and> (hd s1 = CHR ''-'' \<or> hd s1 = CHR ''+'') then [hd s1] else [])"
  define s2 where "s2 = (if s1 \<noteq> [] \<and> (hd s1 = CHR ''-'' \<or> hd s1 = CHR ''+'') then tl s1 else s1)"
  have w: "w = takeWhile is_ws w @ s1" by (simp add: s1_def)
  have s1: "s1 = sg @ s2" by (cases s1) (auto simp: sg_def s2_def)
  have sg: "sg = [] \<or> sg = ''-'' \<or> sg = ''+''" by (auto simp: sg_def)
  have ws: "list_all is_ws (takeWhile is_ws w)"
    by (simp add: list_all_iff) (meson set_takeWhileD)
  have "\<exists>c rest. s2 = c # rest \<and> is_digit 10 c"
  proof (cases "take 2 s2 = ''0x'' \<or> take 2 s2 = ''0X''")
    case True
    then obtain rest where "s2 = CHR ''0'' # rest"
      by (cases s2) auto
    then show ?thesis by (simp add: is_digit_def digit_val_def)
  next
    case False
    with assms have "takeWhile (is_digit 10) s2 \<noteq> []"
      unfolding parseInt_def Let_def s1_def [symmetric] s2_def [symmetric]
      by (auto split: if_splits)
    then show ?thesis by (cases s2) (auto split: if_splits)
  qed
  then obtain c rest where "s2 = c # rest" "is_digit 10 c" by blast
  with w s1 sg ws show ?thesis by (metis append_assoc)
qed

section \<open>Where a second normalization changes nothing\<close>

text \<open>
  On a tree of ordinary objects and arrays in which no property value and no array
  element is \<open>undefined\<close>, \<open>null\<close> or the empty string, a second pass of
  \<open>normalizeStructure\<close> returns what the first pass returned.
\<close>

lemma normalizeStructure_twice_on_nonempty_leaves:
  "nonempty_leaves t \<Longrightarrow> plain_tree t \<Longrightarrow>
     normalizeStructure (normalizeStructure t) = normalizeStructure t"
  using normalizeStructure_idem_aux by blast


section \<open>Facts about whole calls of \<open>processFormData\<close>\<close>

lemma processFormData_group_value:
  assumes "processFormData es = Inr out"
    and fs: "fs = map (\<lambda>e. \<lparr>path = drop 1 (split_parts (fst e)), fvalue = snd e\<rparr>)
                   (filter (\<lambda>e. \<not> is_simple_key (fst e) \<and> base_name (split_parts (fst e)) = g) es)"
    and "fs \<noteq> []"
  shows "map_of out g = Some (process_group fs)"
proof -
  define nested where
    "nested = filter (\<lambda>(key, v). str_includes key ''.'' \<or> str_includes key ''['') es"
  define result where
    "result = fold (\<lambda>(key, v) r. if is_simple_key key then put key v r else r) es []"
  have pfd: "processFormData es =
      (case group_entries nested [] of
         Inl err \<Rightarrow> Inl err
       | Inr fieldGroups \<Rightarrow>
           Inr (fold (\<lambda>(key, v) r. put key v r) (result @ processFieldGroups fieldGroups) []))"
    unfolding processFormData_def Let_def nested_def result_def by (rule refl)
  obtain fg where fg: "group_entries nested [] = Inr fg"
    and out: "out = fold (\<lambda>(key, v) r. put key v r) (result @ processFieldGroups fg) []"
    using assms(1) unfolding pfd by (cases "group_entries nested []") auto
  have "filter (\<lambda>e. base_name (split_parts (fst e)) = g) nested =
      filter (\<lambda>e. \<not> is_simple_key (fst e) \<and> base_name (split_parts (fst e)) = g) es"
    unfolding nested_def by (induction es) (auto simp: is_simple_key_def)
  then have new: "map (\<lambda>e. \<lparr>path = drop 1 (split_parts (fst e)), fvalue = snd e\<rparr>)
      (filter (\<lambda>e. base_name (split_parts (fst e)) = g) nested) = fs"
    by (simp add: fs)
  have fne: "filter (\<lambda>e. base_name (split_parts (fst e)) = g) nested \<noteq> []"
    using new assms(3) by auto
  have mfg: "map_of fg g = Some fs"
    using group_entries_map_of [OF fg, of g] new by (simp add: Let_def fne)
  have dfg: "distinct (map fst fg)" using group_entries_distinct [OF fg] by simp
  have "map_of out g =
      (case map_of (rev (result @ processFieldGroups fg)) g of
         Some w \<Rightarrow> Some w | None \<Rightarrow> map_of [] g)"
    unfolding out by (rule map_of_fold_put [of "\<lambda>v. v"])
  then show ?thesis
    by (simp add: map_of_processFieldGroups [OF dfg] mfg map_add_def)
qed






section \<open>The claims\<close>


subsection \<open>C1: groups of indexed entries\<close>

text \<open>
  C1 as stated, for every group whose rest-paths begin with a numeric segment and whose
  values are non-empty strings, fails on four kinds of input. Where the segment is
  numeric for \<open>parseInt\<close> but is not an array index, as in \<open>items[-1]\<close> and
  \<open>items[4294967295]\<close>, the value becomes a named property of the array in
  \<open>convertToArray\<close> and is lost by its \<open>filter\<close>. Where two segments have the same
  number, as \<open>0\<close> and \<open>00\<close>, both values are assigned to the same element and the
  first is lost. And a string of white space is not the empty string, yet
  \<open>setNestedValue\<close> skips it, so that the group is an empty object, not an array.
\<close>

theorem processFormData_index_group_counterexample:
  "isNumericKey ''-1'' \<and>
   processFormData [(''items[-1]'', Str ''x'')] = Inr [(''items'', Arr [] [])] \<and>
   isNumericKey ''4294967295'' \<and>
   processFormData [(''items[4294967295]'', Str ''x'')] = Inr [(''items'', Arr [] [])] \<and>
   isNumericKey ''00'' \<and>
   processFormData [(''items[0]'', Str ''a''), (''items[00]'', Str ''b'')] =
     Inr [(''items'', Arr [Some (Str ''b'')] [])] \<and>
   processFormData [(''items[0]'', Str '' '')] = Inr [(''items'', Obj Plain [])]"
  by (simp add: builder_eval)

text \<open>
  C1, amended: let the path-bearing entries with the base name \<open>g\<close> have rest-paths
  that each begin with a numeric segment whose number is an array index, that is, at
  least \<open>0\<close> and below \<open>2^32 - 1\<close>, let these numbers be pairwise different, let the
  values be strings that are not blank, and let no part of any key of the call be
  \<open>__proto__\<close>. Whenever \<open>processFormData\<close> returns, it maps \<open>g\<close> to the dense array
  that holds, in ascending order of the numbers, what each entry builds under its
  first segment; for a rest-path of that one segment this is the value of the entry.
  The segment may be written in any way \<open>parseInt\<close> reads, as in \<open>items.0\<close> or
  \<open>items[07]\<close>, the entries may come in any order and among entries of other groups.
  The entries \<open>items[0]\<close>, \<open>items[2]\<close>, \<open>items[5]\<close> are an instance.
\<close>

theorem processFormData_index_group:
  assumes "processFormData es = Inr out"
    and "map (\<lambda>(k, v). (split_parts k, v))
           (filter (\<lambda>(k, v). \<not> is_simple_key k \<and> base_name (split_parts k) = g) es) =
         map (\<lambda>(w, n, rest, s). (g # w # rest, Str s)) wns"
    and "wns \<noteq> []"
    and "\<forall>(w, n, rest, s)\<in>set wns. parseInt w = Some (int n) \<and> n < 4294967295 \<and> trim s \<noteq> []"
    and "distinct (map (\<lambda>(w, n, rest, s). n) wns)"
    and "\<forall>(k, v)\<in>set es. ''__proto__'' \<notin> set (split_parts k)"
  shows "map_of out g =
           Some (dense (map (\<lambda>(w, n, rest, s).
                    normalizeStructure (get_prop (setNestedValue (Obj Plain []) (w # rest) (Str s)) w))
                  (sort_key (\<lambda>(w, n, rest, s). n) wns))) \<and>
         (\<forall>(w, n, rest, s)\<in>set wns. rest = [] \<longrightarrow>
            normalizeStructure (get_prop (setNestedValue (Obj Plain []) (w # rest) (Str s)) w) = Str s)"
proof -
  let ?frag = "\<lambda>e :: string \<times> nat \<times> string list \<times> string. fst e"
  let ?idx = "\<lambda>e :: string \<times> nat \<times> string list \<times> string. fst (snd e)"
  let ?rest = "\<lambda>e :: string \<times> nat \<times> string list \<times> string. fst (snd (snd e))"
  let ?str = "\<lambda>e :: string \<times> nat \<times> string list \<times> string. snd (snd (snd e))"
  define fs where
    "fs = map (\<lambda>e. \<lparr>path = drop 1 (split_parts (fst e)), fvalue = snd e\<rparr>)
            (filter (\<lambda>e. \<not> is_simple_key (fst e) \<and> base_name (split_parts (fst e)) = g) es)"
  have "fs = map (\<lambda>p. \<lparr>path = drop 1 (fst p), fvalue = snd p\<rparr>)
      (map (\<lambda>(k, v). (split_parts k, v))
         (filter (\<lambda>(k, v). \<not> is_simple_key k \<and> base_name (split_parts k) = g) es))"
    by (simp add: fs_def split_def comp_def)
  also have "\<dots> = map (\<lambda>p. \<lparr>path = drop 1 (fst p), fvalue = snd p\<rparr>)
      (map (\<lambda>(w, n, rest, s). (g # w # rest, Str s)) wns)"
    by (simp only: assms(2))
  also have "\<dots> = map (\<lambda>e. \<lparr>path = ?frag e # ?rest e, fvalue = Str (?str e)\<rparr>) wns"
    by (simp add: split_def comp_def)
  finally have fs: "fs = map (\<lambda>e. \<lparr>path = ?frag e # ?rest e, fvalue = Str (?str e)\<rparr>) wns" .
  have ne: "fs \<noteq> []" using assms(3) by (simp add: fs)
  have og: "map_of out g = Some (process_group fs)"
    by (rule processFormData_group_value [OF assms(1) fs_def ne])
  have d: "distinct (map ?idx wns)" using assms(5) by (simp add: split_def)
  have h: "\<forall>e\<in>set wns. parseInt (?frag e) = Some (int (?idx e)) \<and> ?idx e < 4294967295 \<and>
      trim (?str e) \<noteq> []"
    using assms(4) by (simp add: split_def)
  have pg: "process_group fs =
      dense (map (\<lambda>e. normalizeStructure
                (get_prop (setNestedValue (Obj Plain []) (?frag e # ?rest e) (Str (?str e))) (?frag e)))
              (sort_key ?idx wns))"
    unfolding fs by (rule process_group_by_index [OF assms(3) d h])
  have one: "normalizeStructure (get_prop (setNestedValue (Obj Plain []) [w] (Str s)) w) = Str s"
    if "trim s \<noteq> []" for w s
    using that by (simp add: setNestedValue_def isEmptyValue_def lookup_put)
  have "\<forall>(w, n, rest, s)\<in>set wns. rest = [] \<longrightarrow>
      normalizeStructure (get_prop (setNestedValue (Obj Plain []) (w # rest) (Str s)) w) = Str s"
    using assms(4) one by fastforce
  then show ?thesis unfolding og pg by (simp add: split_def)
qed

theorem processFormData_index_group_witness:
  "processFormData [(''items[0]'', Str ''First''), (''items[2]'', Str ''Third''),
                    (''items[5]'', Str ''Sixth'')] =
     Inr [(''items'', Arr [Some (Str ''First''), Some (Str ''Third''), Some (Str ''Sixth'')] [])] \<and>
   map_of [(''items'', Arr [Some (Str ''First''), Some (Str ''Third''), Some (Str ''Sixth'')] [])]
     ''items'' = Some (dense [Str ''First'', Str ''Third'', Str ''Sixth''])"
proof -
  let ?es = "[(''items[0]'', Str ''First''), (''items[2]'', Str ''Third''),
              (''items[5]'', Str ''Sixth'')]"
  let ?out = "[(''items'', Arr [Some (Str ''First''), Some (Str ''Third''), Some (Str ''Sixth'')] [])]"
  let ?wns = "[(''0'', 0 :: nat, [] :: string list, ''First''), (''2'', 2, [], ''Third''),
               (''5'', 5, [], ''Sixth'')]"
  have p: "processFormData ?es = Inr ?out" by (simp add: builder_eval)
  have b: "map (\<lambda>(k, v). (split_parts k, v))
           (filter (\<lambda>(k, v). \<not> is_simple_key k \<and> base_name (split_parts k) = ''items'') ?es) =
         map (\<lambda>(w, n, rest, s). (''items'' # w # rest, Str s)) ?wns"
    by (simp add: builder_eval)
  have c: "?wns \<noteq> []" by simp
  have dd: "\<forall>(w, n, rest, s)\<in>set ?wns. parseInt w = Some (int n) \<and> n < 4294967295 \<and> trim s \<noteq> []"
    by (simp add: builder_eval)
  have e: "distinct (map (\<lambda>(w, n, rest, s). n) ?wns)" by simp
  have f: "\<forall>(k, v)\<in>set ?es. ''__proto__'' \<notin> set (split_parts k)"
    by (simp add: builder_eval)
  from processFormData_index_group [OF p b c dd e f] p show ?thesis
    by (simp add: dense_def)
qed
subsection \<open>C2: the errors of the accessors\<close>

text \<open>
  Every accessor raises \<open>InvalidTarget\<close> on a root that is \<open>null\<close> or \<open>undefined\<close>,
  and \<open>InvalidPath\<close> on the empty path and on a path with two consecutive dots, for
  any root that is present.
\<close>

lemma accessors_reject_missing_root:
  "falsy obj \<Longrightarrow>
     getValue obj p d = Inl InvalidTarget \<and> setValue obj p v = Inl InvalidTarget \<and>
     hasValue obj p = Inl InvalidTarget \<and> deleteValue obj p = Inl InvalidTarget"
  by (simp add: getValue_def setValue_def hasValue_def deleteValue_def)

lemma accessors_reject_bad_path:
  "\<not> falsy obj \<Longrightarrow> p = [] \<or> str_includes p ''..'' \<Longrightarrow>
     getValue obj p d = Inl InvalidPath \<and> setValue obj p v = Inl InvalidPath \<and>
     hasValue obj p = Inl InvalidPath \<and> deleteValue obj p = Inl InvalidPath"
  by (auto simp: getValue_def setValue_def hasValue_def deleteValue_def parsePath_def)

text \<open>
  C2 says that \<open>InvalidPath\<close> and \<open>InvalidTarget\<close> are the only errors the accessors
  raise. \<open>deleteValue\<close> raises a third one: deleting the index \<open>-1\<close> of an empty array
  ends in \<open>current.length = -1\<close>, which is a \<open>RangeError\<close>.
\<close>

theorem deleteValue_negative_index_raises:
  "deleteValue (Obj Plain [(''a'', Arr [] [])]) ''a[-1]'' = Inl RangeError"
  by (simp add: builder_eval accessor_eval)

subsection \<open>C3: reading back what was written\<close>




subsection \<open>C5: values that are not strings\<close>

text \<open>
  C5 says that a raw value that is not a string is never removed. The array branch
  of \<open>normalizeStructure\<close> keeps the truthy elements only, so \<open>null\<close> stored in a
  nested array is removed: the entry \<open>x.a[0] = null\<close> gives \<open>{x: {a: []}}\<close>.
\<close>

theorem processFormData_drops_null_in_nested_array:
  "processFormData [(''x.a[0]'', Null)] = Inr [(''x'', Obj Plain [(''a'', Arr [] [])])]"
  by (simp add: builder_eval)

subsection \<open>C6: the root key of a group is never omitted\<close>

text \<open>
  C6: whenever \<open>processFormData\<close> returns, the base name of every path-bearing entry
  is a key of the result; and when every entry of that group has an empty value (a
  string that is empty after trimming), the key is mapped to the empty object.
\<close>

theorem group_key_always_present:
  assumes "processFormData es = Inr out" and "(k, v) \<in> set es" and "\<not> is_simple_key k"
  shows "base_name (split_parts k) \<in> fst ` set out \<and>
         ((\<forall>(k', v')\<in>set es.
              \<not> is_simple_key k' \<and> base_name (split_parts k') = base_name (split_parts k)
              \<longrightarrow> isEmptyValue v')
          \<longrightarrow> map_of out (base_name (split_parts k)) = Some (Obj Plain []))"
proof -
  define g where "g = base_name (split_parts k)"
  define nested where
    "nested = filter (\<lambda>(key, v). str_includes key ''.'' \<or> str_includes key ''['') es"
  define result where
    "result = fold (\<lambda>(key, v) r. if is_simple_key key then put key v r else r) es []"
  define new where
    "new = map (\<lambda>e. \<lparr>path = drop 1 (split_parts (fst e)), fvalue = snd e\<rparr>)
             (filter (\<lambda>e. base_name (split_parts (fst e)) = g) nested)"
  have pfd: "processFormData es =
      (case group_entries nested [] of
         Inl err \<Rightarrow> Inl err
       | Inr fieldGroups \<Rightarrow>
           Inr (fold (\<lambda>(key, v) r. put key v r) (result @ processFieldGroups fieldGroups) []))"
    unfolding processFormData_def Let_def nested_def result_def by (rule refl)
  obtain fg where fg: "group_entries nested [] = Inr fg"
    and out: "out = fold (\<lambda>(key, v) r. put key v r) (result @ processFieldGroups fg) []"
    using assms(1) unfolding pfd by (cases "group_entries nested []") auto
  have kin: "(k, v) \<in> set nested"
    using assms(2,3) by (auto simp: nested_def is_simple_key_def)
  then have "(k, v) \<in> set (filter (\<lambda>e. base_name (split_parts (fst e)) = g) nested)"
    by (simp add: g_def)
  then have "filter (\<lambda>e. base_name (split_parts (fst e)) = g) nested \<noteq> []"
    by (cases "filter (\<lambda>e. base_name (split_parts (fst e)) = g) nested") simp_all
  then have ne: "new \<noteq> []" by (simp add: new_def)
  have mfg: "map_of fg g = Some new"
    using group_entries_map_of [OF fg, of g] ne by (simp add: Let_def new_def)
  have dfg: "distinct (map fst fg)" using group_entries_distinct [OF fg] by simp
  have "map_of out g =
      (case map_of (rev (result @ processFieldGroups fg)) g of
         Some w \<Rightarrow> Some w | None \<Rightarrow> map_of [] g)"
    unfolding out by (rule map_of_fold_put [of "\<lambda>v. v"])
  then have og: "map_of out g = Some (process_group new)"
    by (simp add: map_of_processFieldGroups [OF dfg] mfg map_add_def)
  then have "map_of out g \<noteq> None" by simp
  then have present: "g \<in> fst ` set out" by (simp add: map_of_None_iff)
  have "map_of out g = Some (Obj Plain [])"
    if h: "\<forall>(k', v')\<in>set es.
          \<not> is_simple_key k' \<and> base_name (split_parts k') = g \<longrightarrow> isEmptyValue v'"
  proof -
    have "isEmptyValue (fvalue f)" if f: "f \<in> set new" for f
    proof -
      from f obtain e where e: "e \<in> set nested" "base_name (split_parts (fst e)) = g"
        and fe: "f = \<lparr>path = drop 1 (split_parts (fst e)), fvalue = snd e\<rparr>"
        unfolding new_def by auto
      have "e \<in> set es \<and> \<not> is_simple_key (fst e)"
        using e(1) by (auto simp: nested_def is_simple_key_def)
      with h e(2) have "isEmptyValue (snd e)" by (cases e) fastforce
      then show ?thesis by (simp add: fe)
    qed
    then show ?thesis using og process_group_all_empty [of new] by simp
  qed
  with present show ?thesis unfolding g_def by blast
qed

theorem group_key_always_present_witness:
  "processFormData [(''tags[0]'', Str '' ''), (''tags[1]'', Str '''')] = Inr [(''tags'', Obj Plain [])] \<and>
   ''tags'' \<in> fst ` set [(''tags'', Obj Plain [])] \<and>
   map_of [(''tags'', Obj Plain [])] ''tags'' = Some (Obj Plain [])"
proof -
  let ?es = "[(''tags[0]'', Str '' ''), (''tags[1]'', Str '''')]"
  have p: "processFormData ?es = Inr [(''tags'', Obj Plain [])]"
    by (simp add: builder_eval)
  have k: "(''tags[0]'', Str '' '') \<in> set ?es" "\<not> is_simple_key ''tags[0]''"
    by (simp_all add: is_simple_key_def)
  have b: "base_name (split_parts ''tags[0]'') = ''tags''"
    by (simp add: base_name_def split_parts_def is_sep_def)
  have e: "\<forall>(k', v')\<in>set ?es.
      \<not> is_simple_key k' \<and> base_name (split_parts k') = base_name (split_parts ''tags[0]'')
      \<longrightarrow> isEmptyValue v'"
    by (simp add: isEmptyValue_def trim_def is_ws_def)
  from group_key_always_present [OF p k] e p show ?thesis by (simp add: b)
qed

subsection \<open>C7: normalizing twice\<close>

text \<open>
  C7 says that a second pass of \<open>normalizeStructure\<close> changes nothing. On the temporary
  object of the entry \<open>items[0] = null\<close> it does: the first pass turns \<open>{"0": null}\<close>
  into the array \<open>[null]\<close>, since \<open>convertToArray\<close> drops \<open>undefined\<close> only, and the
  second pass, now in the array branch, keeps truthy elements only and returns \<open>[]\<close>.
\<close>

theorem normalizeStructure_second_pass_drops_null:
  "normalizeStructure (Obj Plain [(''0'', Null)]) = Arr [Some Null] [] \<and>
   normalizeStructure (normalizeStructure (Obj Plain [(''0'', Null)])) = Arr [] []"
  by (simp add: builder_eval)

subsection \<open>C8: which segments are indices\<close>

text \<open>
  C8 as stated fails on a signed fragment: \<open>parseInt\<close> reads the sign, so \<open>-1\<close> is
  classified as the index \<open>-1\<close>, not as a name.
\<close>

theorem parsePath_negative_index_counterexample:
  "parsePath ''a[-1]'' = Inr [Name ''a'', Index (- 1)]"
  by (simp add: builder_eval accessor_eval)

text \<open>
  C8, amended: in every path that \<open>parsePath\<close> accepts, the segments are the fragments
  in order, and each fragment is classified by \<open>parseInt\<close> on that fragment: it is an
  index exactly when \<open>parseInt\<close> yields a number, and then it begins, after white space
  and an optional sign, with a decimal digit; otherwise it is the name, a non-empty
  fragment. The sign is honoured: a fragment of decimal digits is the non-negative
  index it denotes, and \<open>-\<close> followed by decimal digits is the negative of it (for
  numbers up to \<open>2^53\<close>, which a double holds exactly).
\<close>

theorem parsePath_classifies_each_fragment:
  assumes "parsePath p = Inr segs" and "i < length (split_parts p)"
  shows "length segs = length (split_parts p) \<and>
         is_number (segs ! i) = (parseInt (split_parts p ! i) \<noteq> None) \<and>
         (parseInt (split_parts p ! i) = None \<longrightarrow>
            segs ! i = Name (split_parts p ! i) \<and> split_parts p ! i \<noteq> []) \<and>
         (is_number (segs ! i) \<longrightarrow>
            (\<exists>ws sg c rest. split_parts p ! i = ws @ sg @ c # rest \<and> list_all is_ws ws \<and>
               (sg = [] \<or> sg = ''-'' \<or> sg = ''+'') \<and> is_digit 10 c)) \<and>
         (ds \<noteq> [] \<and> list_all (is_digit 10) ds \<and> digits_value 10 0 ds \<le> 9007199254740992 \<longrightarrow>
            (split_parts p ! i = ds \<longrightarrow> segs ! i = Index (int (digits_value 10 0 ds))) \<and>
            (split_parts p ! i = CHR ''-'' # ds \<longrightarrow>
               segs ! i = Index (- int (digits_value 10 0 ds))))"
proof -
  define w where "w = split_parts p ! i"
  have segs: "segs = map (\<lambda>w. case parseInt w of None \<Rightarrow> Name w | Some n \<Rightarrow> Index n) (split_parts p)"
    using assms(1) by (rule parsePath_segments)
  have len: "length segs = length (split_parts p)" by (simp add: segs)
  have si: "segs ! i = (case parseInt w of None \<Rightarrow> Name w | Some n \<Rightarrow> Index n)"
    unfolding w_def using assms(2) by (simp add: segs)
  have num: "is_number (segs ! i) = (parseInt w \<noteq> None)"
    by (simp add: si split: option.splits)
  have "w \<in> set (split_parts p)" using assms(2) by (simp add: w_def)
  then have ne: "w \<noteq> []" by (simp add: split_parts_def)
  have name: "parseInt w = None \<longrightarrow> segs ! i = Name w \<and> w \<noteq> []"
    using ne by (simp add: si)
  have shape: "is_number (segs ! i) \<longrightarrow>
      (\<exists>ws sg c rest. w = ws @ sg @ c # rest \<and> list_all is_ws ws \<and>
         (sg = [] \<or> sg = ''-'' \<or> sg = ''+'') \<and> is_digit 10 c)"
    using parseInt_shape [of w] by (auto simp: num)
  have val: "(w = ds \<longrightarrow> segs ! i = Index (int (digits_value 10 0 ds))) \<and>
      (w = CHR ''-'' # ds \<longrightarrow> segs ! i = Index (- int (digits_value 10 0 ds)))"
    if "ds \<noteq> []" "list_all (is_digit 10) ds"
    using parseInt_digits [OF that] by (auto simp: si)
  show ?thesis
    unfolding w_def [symmetric] using len num name shape val by blast
qed

theorem parsePath_classifies_each_fragment_witness:
  "parsePath ''a[-12].b'' = Inr [Name ''a'', Index (- 12), Name ''b''] \<and>
   split_parts ''a[-12].b'' ! 1 = ''-12'' \<and>
   is_number ([Name ''a'', Index (- 12), Name ''b''] ! 1) \<and>
   [Name ''a'', Index (- 12), Name ''b''] ! 1 = Index (- int (digits_value 10 0 ''12''))"
proof -
  have p: "parsePath ''a[-12].b'' = Inr [Name ''a'', Index (- 12), Name ''b'']"
    by (simp add: builder_eval accessor_eval)
  have s: "split_parts ''a[-12].b'' = [''a'', ''-12'', ''b'']"
    by (simp add: split_parts_def is_sep_def)
  have i: "1 < length (split_parts ''a[-12].b'')" by (simp add: s)
  have d: "''12'' \<noteq> [] \<and> list_all (is_digit 10) ''12'' \<and> digits_value 10 0 ''12'' \<le> 9007199254740992"
    by (simp add: is_digit_def digit_val_def)
  from parsePath_classifies_each_fragment [OF p i, of "''12''"] d p s
  show ?thesis by simp
qed

subsection \<open>C9: \<open>processFormData\<close> and errors\<close>

text \<open>
  C9 says that \<open>processFormData\<close> never raises. A key whose first part is a name
  that every object inherits, such as \<open>constructor\<close>, finds the inherited value in
  the group table instead of a list of fields, and the call of \<open>push\<close> on it raises a
  \<open>TypeError\<close>.
\<close>

theorem processFormData_inherited_name_raises:
  "processFormData [(''constructor.name'', Str ''x'')] = Inl TypeError"
  by (simp add: builder_eval)


subsection \<open>C10: keys made of separators only\<close>



end
